theory Spec2Isabelle
  imports Main "HOL-Library.Word"
begin


section \<open>Python values used by \<open>streamlit_app.py\<close>\<close>

text \<open>
  A Python \<open>str\<close> is a sequence of Unicode code points, so it is modelled as a list of
  natural numbers (one per code point), not as a list of 8-bit characters. A \<open>bytes\<close>
  object is a list of 8-bit words. The only exceptions the validated functions can raise
  are \<open>ValueError\<close> (from \<open>int\<close> and from tuple unpacking) and its subclass
  \<open>UnicodeDecodeError\<close> (from \<open>bytes.decode\<close>).
\<close>

type_synonym str = "nat list"
type_synonym bytes = "8 word list"

datatype py_error = ValueError | UnicodeDecodeError

text \<open>An ASCII literal of the source, as code points.\<close>

definition lit :: "string \<Rightarrow> str" where
  "lit cs = map of_char cs"

text \<open>The cue tuples \<open>(begin, end, text)\<close> that \<open>re.findall\<close> returns for three groups.\<close>

type_synonym cue = "str \<times> str \<times> str"

subsection \<open>The Unicode tables of the runtime\<close>

text \<open>
  \<open>Py_UNICODE_TODECIMAL\<close>: the decimal digits (category Nd) come in runs of ten
  consecutive code points with the values 0 to 9; the list holds the first code point of
  each run (Unicode 14.0, the database of CPython 3.11). Both \<open>\d\<close> of \<open>re\<close> (on a
  \<open>str\<close> pattern) and \<open>int\<close> consult this table.
\<close>

definition decimal_starts :: "nat list" where
  "decimal_starts =
    [0x30, 0x660, 0x6f0, 0x7c0, 0x966, 0x9e6, 0xa66, 0xae6, 0xb66, 0xbe6, 0xc66,
     0xce6, 0xd66, 0xde6, 0xe50, 0xed0, 0xf20, 0x1040, 0x1090, 0x17e0, 0x1810,
     0x1946, 0x19d0, 0x1a80, 0x1a90, 0x1b50, 0x1bb0, 0x1c40, 0x1c50, 0xa620,
     0xa8d0, 0xa900, 0xa9d0, 0xa9f0, 0xaa50, 0xabf0, 0xff10, 0x104a0, 0x10d30,
     0x11066, 0x110f0, 0x11136, 0x111d0, 0x112f0, 0x11450, 0x114d0, 0x11650,
     0x116c0, 0x11730, 0x118e0, 0x11950, 0x11c50, 0x11d50, 0x11da0, 0x16a60,
     0x16ac0, 0x16b50, 0x1d7ce, 0x1d7d8, 0x1d7e2, 0x1d7ec, 0x1d7f6, 0x1e140,
     0x1e2f0, 0x1e950, 0x1fbf0]"

fun lookup_decimal :: "nat list \<Rightarrow> nat \<Rightarrow> nat option" where
  "lookup_decimal [] c = None"
| "lookup_decimal (s # ss) c =
     (if s \<le> c \<and> c < s + 10 then Some (c - s) else lookup_decimal ss c)"

definition to_decimal :: "nat \<Rightarrow> nat option" where
  "to_decimal c = lookup_decimal decimal_starts c"

definition is_decimal :: "nat \<Rightarrow> bool" where
  "is_decimal c = (to_decimal c \<noteq> None)"

text \<open>\<open>Py_UNICODE_ISSPACE\<close> beyond ASCII, and \<open>Py_ISSPACE\<close> (the ASCII whitespace).\<close>

definition unicode_space :: "nat \<Rightarrow> bool" where
  "unicode_space c =
     (c = 0x85 \<or> c = 0xa0 \<or> c = 0x1680 \<or> (0x2000 \<le> c \<and> c \<le> 0x200a) \<or>
      c = 0x2028 \<or> c = 0x2029 \<or> c = 0x202f \<or> c = 0x205f \<or> c = 0x3000)"

definition ascii_space :: "nat \<Rightarrow> bool" where
  "ascii_space c = ((0x09 \<le> c \<and> c \<le> 0x0d) \<or> c = 0x20)"

subsection \<open>\<open>int(str)\<close>\<close>

text \<open>
  \<open>int\<close> of a \<open>str\<close> in base 10. First every code point from 127 on is replaced: a
  space by \<open>' '\<close>, a decimal digit by its ASCII digit, and anything else by \<open>'?'\<close>, where
  the text is cut. Then the ASCII text is read: leading whitespace, an optional sign,
  digits with single underscores between them, trailing whitespace, and nothing else.
  More than 4300 digits are refused (the default conversion limit).
\<close>

fun transform_decimal_and_space :: "str \<Rightarrow> str" where
  "transform_decimal_and_space [] = []"
| "transform_decimal_and_space (ch # rest) =
     (if ch < 127 then ch # transform_decimal_and_space rest
      else if unicode_space ch then 0x20 # transform_decimal_and_space rest
      else (case to_decimal ch of
              None \<Rightarrow> [0x3f]
            | Some d \<Rightarrow> (0x30 + d) # transform_decimal_and_space rest))"

text \<open>
  The scan over digits and underscores: \<open>prev_us\<close> says that the previous character was an
  underscore, \<open>ds\<close> collects the digit values read so far. It stops at the first character
  that is neither; a doubled or trailing underscore is an error.
\<close>

fun scan_digits :: "bool \<Rightarrow> nat list \<Rightarrow> str \<Rightarrow> (nat list \<times> str) option" where
  "scan_digits prev_us ds [] = (if prev_us then None else Some (ds, []))"
| "scan_digits prev_us ds (c # cs) =
     (if c = 0x5f then (if prev_us then None else scan_digits True ds cs)
      else if 0x30 \<le> c \<and> c \<le> 0x39 then scan_digits False (ds @ [c - 0x30]) cs
      else if prev_us then None else Some (ds, c # cs))"

definition digits_value :: "nat list \<Rightarrow> int" where
  "digits_value ds = foldl (\<lambda>acc d. 10 * acc + int d) 0 ds"

definition max_str_digits :: nat where
  "max_str_digits = 4300"

definition long_from_string :: "str \<Rightarrow> py_error + int" where
  "long_from_string s =
     (let s1 = dropWhile ascii_space s;
          negative = (case s1 of c # _ \<Rightarrow> c = 0x2d | [] \<Rightarrow> False);
          s2 = (case s1 of c # r \<Rightarrow> if c = 0x2b \<or> c = 0x2d then r else s1 | [] \<Rightarrow> s1)
      in case s2 of
           [] \<Rightarrow> Inl ValueError
         | c # _ \<Rightarrow>
             if c = 0x5f then Inl ValueError
             else (case scan_digits False [] s2 of
                     None \<Rightarrow> Inl ValueError
                   | Some (ds, rest) \<Rightarrow>
                       if ds = [] then Inl ValueError
                       else if dropWhile ascii_space rest \<noteq> [] then Inl ValueError
                       else if length ds > max_str_digits then Inl ValueError
                       else Inr (if negative then - digits_value ds else digits_value ds)))"

definition int_py :: "str \<Rightarrow> py_error + int" where
  "int_py u = long_from_string (transform_decimal_and_space u)"

subsection \<open>\<open>str.split(sep)\<close> for a one-character separator\<close>

text \<open>
  The text is cut at every occurrence of the separator; the result always has one part
  more than there are separators, so it is never empty.
\<close>

fun split :: "nat \<Rightarrow> str \<Rightarrow> str list" where
  "split sep [] = [[]]"
| "split sep (c # cs) =
     (let parts = split sep cs
      in if c = sep then [] # parts else (c # hd parts) # tl parts)"

section \<open>\<open>timecode_to_frames\<close>\<close>

text \<open>
  \<open>h, m, s, f = map(int, tc.split(":"))\<close>: the unpacking pulls four values from the lazy
  \<open>map\<close>, each pull applying \<open>int\<close> to the next part, and then pulls once more to see
  that the iterator is exhausted. \<open>unpack n parts\<close> is that protocol for \<open>n\<close> targets:
  too few parts, too many parts and a part that \<open>int\<close> refuses all raise \<open>ValueError\<close>.
\<close>

fun unpack :: "nat \<Rightarrow> str list \<Rightarrow> py_error + int list" where
  "unpack 0 [] = Inr []"
| "unpack 0 (p # ps) = (case int_py p of Inl e \<Rightarrow> Inl e | Inr v \<Rightarrow> Inl ValueError)"
| "unpack (Suc n) [] = Inl ValueError"
| "unpack (Suc n) (p # ps) =
     (case int_py p of
        Inl e \<Rightarrow> Inl e
      | Inr v \<Rightarrow> (case unpack n ps of Inl e \<Rightarrow> Inl e | Inr vs \<Rightarrow> Inr (v # vs)))"

definition timecode_to_frames :: "str \<Rightarrow> py_error + int" where
  "timecode_to_frames tc =
     (case unpack 4 (split 0x3a tc) of
        Inl e \<Rightarrow> Inl e
      | Inr vs \<Rightarrow>
          (case vs of
             [h, m, s, f] \<Rightarrow> Inr ((h * 3600 + m * 60 + s) * 30 + f)
           | _ \<Rightarrow> Inl ValueError))"

section \<open>\<open>extract_itt_data\<close>\<close>

subsection \<open>\<open>bytes.decode("utf-8")\<close>\<close>

text \<open>
  The strict decoder: a lead byte announces one to three continuation bytes
  (\<open>0x80\<close> to \<open>0xBF\<close>); overlong forms, the surrogates \<open>U+D800\<close> to \<open>U+DFFF\<close> and code
  points beyond \<open>U+10FFFF\<close> are refused with \<open>UnicodeDecodeError\<close>, as is a truncated
  sequence.
\<close>

definition continuation :: "8 word \<Rightarrow> bool" where
  "continuation b = (0x80 \<le> b \<and> b \<le> 0xBF)"

definition cons_ok :: "nat \<Rightarrow> py_error + str \<Rightarrow> py_error + str" where
  "cons_ok c r = (case r of Inl e \<Rightarrow> Inl e | Inr cs \<Rightarrow> Inr (c # cs))"

fun decode_utf8 :: "bytes \<Rightarrow> py_error + str" where
  "decode_utf8 [] = Inr []"
| "decode_utf8 (b0 # bs) =
     (if b0 < 0x80 then cons_ok (unat b0) (decode_utf8 bs)
      else if 0xC2 \<le> b0 \<and> b0 \<le> 0xDF then
        (case bs of
           b1 # r \<Rightarrow>
             if continuation b1
             then cons_ok ((unat b0 - 0xC0) * 64 + (unat b1 - 0x80)) (decode_utf8 r)
             else Inl UnicodeDecodeError
         | _ \<Rightarrow> Inl UnicodeDecodeError)
      else if 0xE0 \<le> b0 \<and> b0 \<le> 0xEF then
        (case bs of
           b1 # b2 # r \<Rightarrow>
             if continuation b1 \<and> continuation b2 \<and>
                (if b0 = 0xE0 then 0xA0 \<le> b1 else if b0 = 0xED then b1 \<le> 0x9F else True)
             then cons_ok ((unat b0 - 0xE0) * 4096 + (unat b1 - 0x80) * 64 + (unat b2 - 0x80))
                    (decode_utf8 r)
             else Inl UnicodeDecodeError
         | _ \<Rightarrow> Inl UnicodeDecodeError)
      else if 0xF0 \<le> b0 \<and> b0 \<le> 0xF4 then
        (case bs of
           b1 # b2 # b3 # r \<Rightarrow>
             if continuation b1 \<and> continuation b2 \<and> continuation b3 \<and>
                (if b0 = 0xF0 then 0x90 \<le> b1 else if b0 = 0xF4 then b1 \<le> 0x8F else True)
             then cons_ok ((unat b0 - 0xF0) * 262144 + (unat b1 - 0x80) * 4096 +
                           (unat b2 - 0x80) * 64 + (unat b3 - 0x80))
                    (decode_utf8 r)
             else Inl UnicodeDecodeError
         | _ \<Rightarrow> Inl UnicodeDecodeError)
      else Inl UnicodeDecodeError)"

text \<open>An ASCII literal as bytes, for concrete documents.\<close>

definition ascii_bytes :: "string \<Rightarrow> bytes" where
  "ascii_bytes cs = map of_char cs"

subsection \<open>The cue pattern\<close>

text \<open>
  \<open><p begin="(\d{2}:\d{2}:\d{2}:\d{2})" end="(\d{2}:\d{2}:\d{2}:\d{2})">(.*?)</p>\<close>,
  matched at the start of a text. Every piece but the last is of fixed width and has one
  way to match, so the backtracking matcher is a sequence of steps, each returning what
  is left of the text. \<open>match_lit\<close> matches a literal.
\<close>

fun match_lit :: "str \<Rightarrow> str \<Rightarrow> str option" where
  "match_lit [] s = Some s"
| "match_lit (l # ls) [] = None"
| "match_lit (l # ls) (c # cs) = (if l = c then match_lit ls cs else None)"

text \<open>\<open>\d{2}\<close>, and the group \<open>(\d{2}:\d{2}:\d{2}:\d{2})\<close> with the text it captures.\<close>

fun match_d2 :: "str \<Rightarrow> (str \<times> str) option" where
  "match_d2 (a # b # rest) = (if is_decimal a \<and> is_decimal b then Some ([a, b], rest) else None)"
| "match_d2 _ = None"

definition match_colon_d2 :: "str \<Rightarrow> (str \<times> str) option" where
  "match_colon_d2 s =
     (case match_lit [0x3a] s of
        None \<Rightarrow> None
      | Some r \<Rightarrow> (case match_d2 r of None \<Rightarrow> None | Some (g, r') \<Rightarrow> Some (0x3a # g, r')))"

definition match_tc :: "str \<Rightarrow> (str \<times> str) option" where
  "match_tc s =
     (case match_d2 s of None \<Rightarrow> None | Some (g1, r1) \<Rightarrow>
     (case match_colon_d2 r1 of None \<Rightarrow> None | Some (g2, r2) \<Rightarrow>
     (case match_colon_d2 r2 of None \<Rightarrow> None | Some (g3, r3) \<Rightarrow>
     (case match_colon_d2 r3 of None \<Rightarrow> None | Some (g4, r4) \<Rightarrow>
        Some (g1 @ g2 @ g3 @ g4, r4)))))"

text \<open>
  \<open>(.*?)</p>\<close>: the lazy star first tries the rest of the pattern, \<open></p>\<close>, and only
  when that fails lets \<open>.\<close> take one more character; \<open>.\<close> takes anything but a line
  feed (the pattern is compiled without \<open>re.DOTALL\<close>).
\<close>

definition close_p :: str where
  "close_p = lit ''</p>''"

fun match_inner :: "str \<Rightarrow> (str \<times> str) option" where
  "match_inner [] = None"
| "match_inner (c # cs) =
     (case match_lit close_p (c # cs) of
        Some rest \<Rightarrow> Some ([], rest)
      | None \<Rightarrow>
          if c = 0x0a then None
          else (case match_inner cs of
                  None \<Rightarrow> None
                | Some (inner, rest) \<Rightarrow> Some (c # inner, rest)))"

definition match_p :: "str \<Rightarrow> (cue \<times> str) option" where
  \<open>match_p s =
     (case match_lit (lit ''<p begin="'') s of None \<Rightarrow> None | Some r1 \<Rightarrow>
     (case match_tc r1 of None \<Rightarrow> None | Some (tc_begin, r2) \<Rightarrow>
     (case match_lit (lit ''" end="'') r2 of None \<Rightarrow> None | Some r3 \<Rightarrow>
     (case match_tc r3 of None \<Rightarrow> None | Some (tc_end, r4) \<Rightarrow>
     (case match_lit (lit ''">'') r4 of None \<Rightarrow> None | Some r5 \<Rightarrow>
     (case match_inner r5 of None \<Rightarrow> None | Some (inner, r6) \<Rightarrow>
        Some ((tc_begin, tc_end, inner), r6)))))))\<close>

subsection \<open>\<open>re.findall\<close> with the cue pattern\<close>

text \<open>
  A match consumes text, so the scan resumes strictly further right after each match;
  this is what makes the scan terminate.
\<close>

lemma match_lit_length: "match_lit l s = Some r \<Longrightarrow> length s = length l + length r"
  by (induction l s rule: match_lit.induct) (auto split: if_splits)

lemma match_inner_length: "match_inner s = Some (inner, r) \<Longrightarrow> length r < length s"
proof (induction s arbitrary: inner)
  case Nil
  then show ?case by simp
next
  case (Cons c cs)
  show ?case
  proof (cases "match_lit close_p (c # cs)")
    case (Some rest)
    with Cons.prems have "r = rest" by simp
    moreover from Some have "length (c # cs) = length close_p + length rest"
      by (rule match_lit_length)
    ultimately show ?thesis by (simp add: close_p_def lit_def)
  next
    case None
    with Cons.prems obtain inner' where "match_inner cs = Some (inner', r)"
      by (auto split: if_splits option.splits)
    then have "length r < length cs" by (rule Cons.IH)
    then show ?thesis by simp
  qed
qed

lemma match_d2_length: "match_d2 s = Some (g, r) \<Longrightarrow> length r \<le> length s"
  by (induction s rule: match_d2.induct) (auto split: if_splits)

lemma match_colon_d2_length: "match_colon_d2 s = Some (g, r) \<Longrightarrow> length r \<le> length s"
  by (auto simp: match_colon_d2_def split: option.splits
      dest!: match_lit_length match_d2_length)

lemma match_tc_length: "match_tc s = Some (g, r) \<Longrightarrow> length r \<le> length s"
  by (auto simp: match_tc_def split: option.splits
      dest!: match_d2_length match_colon_d2_length)

lemma match_p_length: "match_p s = Some (c, r) \<Longrightarrow> length r < length s"
  by (auto simp: match_p_def split: option.splits
      dest!: match_lit_length match_tc_length match_inner_length)

text \<open>
  \<open>re.findall\<close>: try the pattern at the current position; after a match, record the three
  groups and go on where the match ended; otherwise move one character to the right.
\<close>

function findall_p :: "str \<Rightarrow> cue list" where
  "findall_p [] = []"
| "findall_p (c # cs) =
     (case match_p (c # cs) of
        Some (groups, rest) \<Rightarrow> groups # findall_p rest
      | None \<Rightarrow> findall_p cs)"
  by pat_completeness auto
termination
  by (relation "measure length") (auto dest: match_p_length)

subsection \<open>The language tag\<close>

text \<open>
  \<open>re.search(r'xml:lang=["\']([a-zA-Z0-9-]+)["\']', content)\<close>: the greedy class takes
  the longest run of tag characters; as a quote is not a tag character, giving characters
  back can never help, so the match succeeds exactly when that run is not empty and a
  quote follows it.
\<close>

definition lang_char :: "nat \<Rightarrow> bool" where
  "lang_char c =
     ((0x61 \<le> c \<and> c \<le> 0x7a) \<or> (0x41 \<le> c \<and> c \<le> 0x5a) \<or> (0x30 \<le> c \<and> c \<le> 0x39) \<or> c = 0x2d)"

definition quote :: "nat \<Rightarrow> bool" where
  "quote c = (c = 0x22 \<or> c = 0x27)"

definition match_lang :: "str \<Rightarrow> str option" where
  "match_lang s =
     (case match_lit (lit ''xml:lang='') s of
        None \<Rightarrow> None
      | Some r1 \<Rightarrow>
          (case r1 of
             [] \<Rightarrow> None
           | q # r2 \<Rightarrow>
               if \<not> quote q then None
               else (let code = takeWhile lang_char r2
                     in if code = [] then None
                        else (case dropWhile lang_char r2 of
                                [] \<Rightarrow> None
                              | q' # _ \<Rightarrow> if quote q' then Some code else None))))"

fun search_lang :: "str \<Rightarrow> str option" where
  "search_lang [] = None"
| "search_lang (c # cs) =
     (case match_lang (c # cs) of Some code \<Rightarrow> Some code | None \<Rightarrow> search_lang cs)"

subsection \<open>The extractor\<close>

definition extract_itt_data :: "bytes \<Rightarrow> py_error + (cue list \<times> str \<times> str)" where
  "extract_itt_data file_content =
     (case decode_utf8 file_content of
        Inl e \<Rightarrow> Inl e
      | Inr content \<Rightarrow>
          (let pattern = findall_p content;
               lang_match = search_lang content;
               lang_code = (case lang_match of Some code \<Rightarrow> code | None \<Rightarrow> lit ''Unknown'')
           in Inr (pattern, lang_code, content)))"

section \<open>\<open>check_timecode_overlap\<close>\<close>

text \<open>
  The loop with its one variable \<open>prev_end\<close> (\<open>None\<close> before the first cue). Both
  timecodes of a cue are converted before the test, and \<open>return True\<close> leaves the loop at
  the first overlap.
\<close>

fun overlap_loop :: "int option \<Rightarrow> cue list \<Rightarrow> py_error + bool" where
  "overlap_loop prev_end [] = Inr False"
| "overlap_loop prev_end ((start, end, _) # rest) =
     (case timecode_to_frames start of
        Inl e \<Rightarrow> Inl e
      | Inr start_frames \<Rightarrow>
          (case timecode_to_frames end of
             Inl e \<Rightarrow> Inl e
           | Inr end_frames \<Rightarrow>
               if (case prev_end of None \<Rightarrow> False | Some p \<Rightarrow> start_frames < p)
               then Inr True
               else overlap_loop (Some end_frames) rest))"

definition check_timecode_overlap :: "cue list \<Rightarrow> py_error + bool" where
  "check_timecode_overlap itt_data = overlap_loop None itt_data"

section \<open>\<open>compare_files\<close>\<close>

text \<open>
  The loop over \<open>enumerate(english_data)\<close>: \<open>i\<close> is the index, the second argument what
  is left of \<open>english_data\<close>, and \<open>timecode_issues\<close> the list built so far. The loop
  breaks when \<open>i\<close> reaches the length of \<open>translated_data\<close>. In the condition, \<open>or\<close>
  evaluates its right operand only when the left one is false, and each side converts the
  English timecode before the translated one.
\<close>

definition frames_differ :: "str \<Rightarrow> str \<Rightarrow> py_error + bool" where
  "frames_differ eng spa =
     (case timecode_to_frames eng of
        Inl e \<Rightarrow> Inl e
      | Inr a \<Rightarrow>
          (case timecode_to_frames spa of
             Inl e \<Rightarrow> Inl e
           | Inr b \<Rightarrow> Inr (abs (a - b) > 3)))"

fun compare_loop ::
  "nat \<Rightarrow> cue list \<Rightarrow> cue list \<Rightarrow> (str \<times> str) list \<Rightarrow> py_error + (str \<times> str) list" where
  "compare_loop i [] translated_data timecode_issues = Inr timecode_issues"
| "compare_loop i ((eng_start, eng_end, eng_text) # rest) translated_data timecode_issues =
     (if i \<ge> length translated_data then Inr timecode_issues
      else (case translated_data ! i of (spa_start, spa_end, spa_text) \<Rightarrow>
        (case frames_differ eng_start spa_start of
           Inl e \<Rightarrow> Inl e
         | Inr True \<Rightarrow>
             compare_loop (i + 1) rest translated_data (timecode_issues @ [(eng_text, spa_text)])
         | Inr False \<Rightarrow>
             (case frames_differ eng_end spa_end of
                Inl e \<Rightarrow> Inl e
              | Inr True \<Rightarrow>
                  compare_loop (i + 1) rest translated_data
                    (timecode_issues @ [(eng_text, spa_text)])
              | Inr False \<Rightarrow> compare_loop (i + 1) rest translated_data timecode_issues))))"

definition compare_files ::
  "cue list \<Rightarrow> cue list \<Rightarrow> py_error + (bool \<times> (str \<times> str) list \<times> cue list \<times> cue list)" where
  "compare_files english_data translated_data =
     (let line_count_match = (length english_data = length translated_data)
      in case compare_loop 0 english_data translated_data [] of
           Inl e \<Rightarrow> Inl e
         | Inr timecode_issues \<Rightarrow>
             (let extra_lines =
                    (if length translated_data > length english_data
                     then drop (length english_data) translated_data else []);
                  missing_lines =
                    (if length english_data > length translated_data
                     then drop (length translated_data) english_data else [])
              in Inr (line_count_match, timecode_issues, extra_lines, missing_lines)))"

section \<open>\<open>generate_corrected_itt\<close>\<close>

text \<open>
  The output grows by one formatted line per cue; \<open>generate_loop\<close> is the \<open>for\<close> loop with
  \<open>corrected_output\<close> as its accumulator. The f-string inserts the two timecode strings
  as they are.
\<close>

definition p_line :: "str \<Rightarrow> str \<Rightarrow> str" where
  \<open>p_line eng_start eng_end =
     lit ''    <p begin="'' @ eng_start @ lit ''" end="'' @ eng_end @
     lit ''">TRANSLATED TEXT HERE</p>\<newline>''\<close>

fun generate_loop :: "str \<Rightarrow> cue list \<Rightarrow> str" where
  "generate_loop corrected_output [] = corrected_output"
| "generate_loop corrected_output ((eng_start, eng_end, _) # rest) =
     generate_loop (corrected_output @ p_line eng_start eng_end) rest"

definition generate_corrected_itt :: "cue list \<Rightarrow> str" where
  "generate_corrected_itt english_data =
     generate_loop
       (lit ''<?xml version='1.0' encoding='utf-8'?>\<newline><tt>\<newline><body>\<newline>'')
       english_data
     @ lit ''</body>\<newline></tt>''"

section \<open>Notions of the specification\<close>

text \<open>
  The words of the specification, as predicates over the functions above. A timecode
  string ``splits on \<open>:\<close> into exactly four integer-parsable parts'' when \<open>split\<close> yields
  four parts and \<open>int\<close> accepts each.
\<close>

definition int_parsable :: "str \<Rightarrow> bool" where
  "int_parsable p = (case int_py p of Inr _ \<Rightarrow> True | Inl _ \<Rightarrow> False)"

definition four_int_parts :: "str \<Rightarrow> bool" where
  "four_int_parts tc =
     (let parts = split 0x3a tc in length parts = 4 \<and> list_all int_parsable parts)"

text \<open>
  A cue is the triple (start, end, text). Its timecodes are usable when the parser accepts
  them; \<open>frames_of\<close> is then the frame count (and 0 for a string the parser refuses,
  which the theorems below exclude by hypothesis).
\<close>

definition parses :: "str \<Rightarrow> bool" where
  "parses tc = (case timecode_to_frames tc of Inr _ \<Rightarrow> True | Inl _ \<Rightarrow> False)"

definition frames_of :: "str \<Rightarrow> int" where
  "frames_of tc = (case timecode_to_frames tc of Inr n \<Rightarrow> n | Inl _ \<Rightarrow> 0)"

definition cue_ok :: "cue \<Rightarrow> bool" where
  "cue_ok c = (parses (fst c) \<and> parses (fst (snd c)))"

definition start_frames :: "cue \<Rightarrow> int" where
  "start_frames c = frames_of (fst c)"

definition end_frames :: "cue \<Rightarrow> int" where
  "end_frames c = frames_of (fst (snd c))"

definition cue_text :: "cue \<Rightarrow> str" where
  "cue_text c = snd (snd c)"

text \<open>The cues at equal indices of the two sequences all have usable timecodes.\<close>

definition aligned_ok :: "cue list \<Rightarrow> cue list \<Rightarrow> bool" where
  "aligned_ok R T = list_all (\<lambda>(r, t). cue_ok r \<and> cue_ok t) (zip R T)"

text \<open>
  The timecode issues as the specification lists them: for each index of the overlap
  region, in increasing order, the pair of texts when the start or the end frame counts
  differ by more than 3.
\<close>

definition drifted :: "cue \<Rightarrow> cue \<Rightarrow> bool" where
  "drifted r t =
     (abs (start_frames r - start_frames t) > 3 \<or> abs (end_frames r - end_frames t) > 3)"

definition timecode_issues_spec :: "cue list \<Rightarrow> cue list \<Rightarrow> (str \<times> str) list" where
  "timecode_issues_spec R T =
     map (\<lambda>i. (cue_text (R ! i), cue_text (T ! i)))
       (filter (\<lambda>i. drifted (R ! i) (T ! i)) [0..<min (length R) (length T)])"

text \<open>
  The overlap flag as the specification defines it: some cue starts strictly before the
  cue just before it ends.
\<close>

definition overlap_spec :: "cue list \<Rightarrow> bool" where
  "overlap_spec cs =
     (\<exists>i. Suc i < length cs \<and> start_frames (cs ! Suc i) < end_frames (cs ! i))"

text \<open>
  The textual form of a timecode: exactly four groups of two decimal digits, separated by
  colons. A decimal digit is what \<open>\d\<close> matches, a character of the table above.
\<close>

definition two_decimals :: "str \<Rightarrow> bool" where
  "two_decimals p = (length p = 2 \<and> list_all is_decimal p)"

definition timecode_shape :: "str \<Rightarrow> bool" where
  "timecode_shape tc =
     (let parts = split 0x3a tc in length parts = 4 \<and> list_all two_decimals parts)"

text \<open>
  The cue fragments of a document. \<open>occurs_at pat s i\<close>: the text \<open>pat\<close> stands in \<open>s\<close>
  at index \<open>i\<close>. \<open>p_shape_claimed s c rest\<close>: the text \<open>s\<close> starts with a fragment
  \<open><p begin="TC" end="TC">INNER</p>\<close> whose two timecodes and inner text are the cue \<open>c\<close>,
  where \<open>INNER\<close> is the shortest span up to the next \<open></p>\<close> (no \<open></p>\<close> starts inside
  it), and \<open>rest\<close> is what follows the fragment. \<open>p_shape\<close> asks in addition that
  \<open>INNER\<close> holds no line feed.
\<close>

definition occurs_at :: "str \<Rightarrow> str \<Rightarrow> nat \<Rightarrow> bool" where
  "occurs_at pat s i = (take (length pat) (drop i s) = pat)"

definition p_shape_claimed :: "str \<Rightarrow> cue \<Rightarrow> str \<Rightarrow> bool" where
  \<open>p_shape_claimed s c rest =
     (case c of (tc_begin, tc_end, inner) \<Rightarrow>
        s = lit ''<p begin="'' @ tc_begin @ lit ''" end="'' @ tc_end @ lit ''">'' @
            inner @ lit ''</p>'' @ rest \<and>
        timecode_shape tc_begin \<and> timecode_shape tc_end \<and>
        (\<forall>i < length inner. \<not> occurs_at (lit ''</p>'') (inner @ lit ''</p>'') i))\<close>

definition p_shape :: "str \<Rightarrow> cue \<Rightarrow> str \<Rightarrow> bool" where
  "p_shape s c rest = (p_shape_claimed s c rest \<and> 0x0a \<notin> set (cue_text c))"

text \<open>
  The cues of all non-overlapping fragments, in document order: \<open>scan shape s cs\<close> holds
  when \<open>cs\<close> lists the fragments found by going through \<open>s\<close> from left to right, each
  fragment starting at the first position, at or after the end of the previous one, where
  a fragment of the shape starts.
\<close>

inductive scan :: "(str \<Rightarrow> cue \<Rightarrow> str \<Rightarrow> bool) \<Rightarrow> str \<Rightarrow> cue list \<Rightarrow> bool"
  for shape :: "str \<Rightarrow> cue \<Rightarrow> str \<Rightarrow> bool" where
  scan_done: "(\<And>i c r. i \<le> length s \<Longrightarrow> \<not> shape (drop i s) c r) \<Longrightarrow> scan shape s []"
| scan_next: "(\<And>i c' r. i < length pre \<Longrightarrow> \<not> shape (drop i (pre @ m)) c' r) \<Longrightarrow>
     shape m c rest \<Longrightarrow> scan shape rest cs \<Longrightarrow> scan shape (pre @ m) (c # cs)"

text \<open>
  Well-formed \<open>HH:MM:SS:FF\<close> strings in ASCII digits, the order of Python's \<open><\<close> on
  \<open>str\<close> (lexicographic by code point, a proper prefix being smaller), and timecodes
  whose minutes, seconds and frames are in their temporal ranges at 30 frames a second.
\<close>

definition two_ascii_digits :: "str \<Rightarrow> bool" where
  "two_ascii_digits p = (length p = 2 \<and> list_all (\<lambda>c. 0x30 \<le> c \<and> c \<le> 0x39) p)"

definition ascii_timecode :: "str \<Rightarrow> bool" where
  "ascii_timecode tc =
     (let parts = split 0x3a tc in length parts = 4 \<and> list_all two_ascii_digits parts)"

fun str_less :: "str \<Rightarrow> str \<Rightarrow> bool" where
  "str_less [] [] = False"
| "str_less [] (y # ys) = True"
| "str_less (x # xs) [] = False"
| "str_less (x # xs) (y # ys) = (x < y \<or> (x = y \<and> str_less xs ys))"

definition fields_in_range :: "str \<Rightarrow> bool" where
  "fields_in_range tc =
     (case unpack 4 (split 0x3a tc) of
        Inr [h, m, s, f] \<Rightarrow> m < 60 \<and> s < 60 \<and> f < 30
      | _ \<Rightarrow> False)"

subsection \<open>Example documents\<close>

text \<open>
  A reference of three cues and a translation of five. The first translated cue starts
  exactly 3 frames late, the second starts 4 frames late, the third ends 4 frames early.
\<close>

definition ref3 :: "cue list" where
  "ref3 =
     [(lit ''00:00:00:00'', lit ''00:00:02:00'', lit ''Hello''),
      (lit ''00:00:03:00'', lit ''00:00:05:00'', lit ''World''),
      (lit ''00:00:06:00'', lit ''00:00:08:00'', lit ''Bye'')]"

definition tra5 :: "cue list" where
  "tra5 =
     [(lit ''00:00:00:03'', lit ''00:00:02:00'', lit ''Bonjour''),
      (lit ''00:00:03:04'', lit ''00:00:05:00'', lit ''Monde''),
      (lit ''00:00:06:00'', lit ''00:00:07:26'', lit ''Salut''),
      (lit ''00:00:09:00'', lit ''00:00:10:00'', lit ''Encore''),
      (lit ''00:00:11:00'', lit ''00:00:12:00'', lit ''Fin'')]"

text \<open>The two cue sequences of the specification's overlap examples.\<close>

definition overlapping2 :: "cue list" where
  "overlapping2 =
     [(lit ''00:00:00:00'', lit ''00:00:02:00'', lit ''A''),
      (lit ''00:00:01:00'', lit ''00:00:03:00'', lit ''B'')]"

definition abutting2 :: "cue list" where
  "abutting2 =
     [(lit ''00:00:00:00'', lit ''00:00:02:00'', lit ''A''),
      (lit ''00:00:02:00'', lit ''00:00:04:00'', lit ''B'')]"

text \<open>A document whose only cue has a line feed in its text, and that cue.\<close>

definition doc_two_lines :: string where
  \<open>doc_two_lines = ''<p begin="00:00:00:00" end="00:00:02:00">Hello\<newline>World</p>''\<close>

definition cue_two_lines :: cue where
  "cue_two_lines = (lit ''00:00:00:00'', lit ''00:00:02:00'', lit ''Hello\<newline>World'')"

text \<open>A document with a language tag and two cues on one line each.\<close>

definition doc_two_cues :: string where
  \<open>doc_two_cues =
     ''<tt xml:lang="fr-FR"><body>\<newline><p begin="00:00:00:00" end="00:00:02:00">Hello</p>\<newline><p begin="00:00:03:00" end="00:00:05:00">World</p>\<newline></body></tt>''\<close>

definition cues_two :: "cue list" where
  "cues_two =
     [(lit ''00:00:00:00'', lit ''00:00:02:00'', lit ''Hello''),
      (lit ''00:00:03:00'', lit ''00:00:05:00'', lit ''World'')]"

section \<open>Properties of the timecode parser\<close>

lemma long_from_string_error: "long_from_string s = Inl e \<Longrightarrow> e = ValueError"
  by (auto simp: long_from_string_def Let_def split: list.splits if_splits option.splits)

lemma int_py_error: "int_py p = Inl e \<Longrightarrow> e = ValueError"
  unfolding int_py_def by (rule long_from_string_error)

lemma unpack_error: "unpack n ps = Inl e \<Longrightarrow> e = ValueError"
  by (induction n ps rule: unpack.induct) (auto split: sum.splits dest: int_py_error)

lemma unpack_Inr_D:
  "unpack n ps = Inr vs \<Longrightarrow> length ps = n \<and> map int_py ps = map Inr vs"
proof (induction n ps arbitrary: vs rule: unpack.induct)
  case (4 n p ps)
  from "4.prems" obtain v vs' where p: "int_py p = Inr v" and u: "unpack n ps = Inr vs'"
    and vs: "vs = v # vs'"
    by (auto split: sum.splits)
  from "4.IH" [OF p u] p vs show ?case by simp
qed (auto split: sum.splits)

lemma unpack_Inr_I:
  "map int_py ps = map Inr vs \<Longrightarrow> unpack (length ps) ps = Inr vs"
proof (induction ps arbitrary: vs)
  case Nil
  then show ?case by simp
next
  case (Cons p ps)
  then obtain v vs' where vs: "vs = v # vs'" and p: "int_py p = Inr v"
    and m: "map int_py ps = map Inr vs'"
    by (cases vs) auto
  from Cons.IH [OF m] p vs show ?case by simp
qed

lemma unpack_Inr_iff:
  "unpack n ps = Inr vs \<longleftrightarrow> length ps = n \<and> map int_py ps = map Inr vs"
  using unpack_Inr_D unpack_Inr_I by blast

lemma length_4_iff: "length xs = 4 \<longleftrightarrow> (\<exists>a b c d. xs = [a, b, c, d])"
  by (auto simp: length_Suc_conv numeral_eq_Suc)

lemma is_Inr_iff: "(case x of Inr _ \<Rightarrow> True | Inl _ \<Rightarrow> False) \<longleftrightarrow> (\<exists>v. x = Inr v)"
  by (cases x) auto

lemma timecode_to_frames_error: "timecode_to_frames tc = Inl e \<Longrightarrow> e = ValueError"
  by (auto simp: timecode_to_frames_def split: sum.splits list.splits dest: unpack_error)

lemma timecode_to_frames_Inr_iff:
  "timecode_to_frames tc = Inr n \<longleftrightarrow>
     (\<exists>p1 p2 p3 p4 h m s f.
        split 0x3a tc = [p1, p2, p3, p4] \<and>
        int_py p1 = Inr h \<and> int_py p2 = Inr m \<and> int_py p3 = Inr s \<and> int_py p4 = Inr f \<and>
        n = (h * 3600 + m * 60 + s) * 30 + f)"
proof
  assume "timecode_to_frames tc = Inr n"
  then obtain h m s f where u: "unpack 4 (split 0x3a tc) = Inr [h, m, s, f]"
    and n: "n = (h * 3600 + m * 60 + s) * 30 + f"
    by (auto simp: timecode_to_frames_def split: sum.splits list.splits)
  from u have len: "length (split 0x3a tc) = 4"
    and m: "map int_py (split 0x3a tc) = [Inr h, Inr m, Inr s, Inr f]"
    by (simp_all add: unpack_Inr_iff)
  from len obtain p1 p2 p3 p4 where ps: "split 0x3a tc = [p1, p2, p3, p4]"
    by (auto simp: length_4_iff)
  with m n show "\<exists>p1 p2 p3 p4 h m s f.
        split 0x3a tc = [p1, p2, p3, p4] \<and>
        int_py p1 = Inr h \<and> int_py p2 = Inr m \<and> int_py p3 = Inr s \<and> int_py p4 = Inr f \<and>
        n = (h * 3600 + m * 60 + s) * 30 + f"
    by auto
next
  assume "\<exists>p1 p2 p3 p4 h m s f.
        split 0x3a tc = [p1, p2, p3, p4] \<and>
        int_py p1 = Inr h \<and> int_py p2 = Inr m \<and> int_py p3 = Inr s \<and> int_py p4 = Inr f \<and>
        n = (h * 3600 + m * 60 + s) * 30 + f"
  then obtain p1 p2 p3 p4 h m s f where ps: "split 0x3a tc = [p1, p2, p3, p4]"
    and i: "int_py p1 = Inr h" "int_py p2 = Inr m" "int_py p3 = Inr s" "int_py p4 = Inr f"
    and n: "n = (h * 3600 + m * 60 + s) * 30 + f"
    by blast
  from ps i have "unpack 4 (split 0x3a tc) = Inr [h, m, s, f]"
    by (simp add: unpack_Inr_iff)
  with n show "timecode_to_frames tc = Inr n"
    by (simp add: timecode_to_frames_def)
qed

text \<open>Evaluating the parser on concrete timecodes.\<close>

lemma unpack_4: "unpack 4 ps = unpack (Suc (Suc (Suc (Suc 0)))) ps"
  by (simp add: numeral_eq_Suc)

lemmas tc_eval = lit_def timecode_to_frames_def unpack_4 int_py_def long_from_string_def
  ascii_space_def digits_value_def max_str_digits_def Let_def

lemma example_frames:
  "timecode_to_frames (lit ''00:00:00:00'') = Inr 0"
  "timecode_to_frames (lit ''00:00:00:03'') = Inr 3"
  "timecode_to_frames (lit ''00:00:01:00'') = Inr 30"
  "timecode_to_frames (lit ''00:00:02:00'') = Inr 60"
  "timecode_to_frames (lit ''00:00:03:00'') = Inr 90"
  "timecode_to_frames (lit ''00:00:03:04'') = Inr 94"
  "timecode_to_frames (lit ''00:00:04:00'') = Inr 120"
  "timecode_to_frames (lit ''00:00:05:00'') = Inr 150"
  "timecode_to_frames (lit ''00:00:06:00'') = Inr 180"
  "timecode_to_frames (lit ''00:00:07:26'') = Inr 236"
  "timecode_to_frames (lit ''00:00:08:00'') = Inr 240"
  "timecode_to_frames (lit ''00:00:09:00'') = Inr 270"
  "timecode_to_frames (lit ''00:00:10:00'') = Inr 300"
  "timecode_to_frames (lit ''00:00:11:00'') = Inr 330"
  "timecode_to_frames (lit ''00:00:12:00'') = Inr 360"
  by (simp_all add: tc_eval)

lemma four_int_parts_iff:
  "four_int_parts tc \<longleftrightarrow>
     (\<exists>p1 p2 p3 p4 h m s f.
        split 0x3a tc = [p1, p2, p3, p4] \<and>
        int_py p1 = Inr h \<and> int_py p2 = Inr m \<and> int_py p3 = Inr s \<and> int_py p4 = Inr f)"
  unfolding four_int_parts_def Let_def length_4_iff by (auto simp: int_parsable_def is_Inr_iff)

section \<open>Properties of the generator\<close>

lemma generate_loop_concat:
  "generate_loop acc cs = acc @ concat (map (\<lambda>(b, e, t). p_line b e) cs)"
  by (induction acc cs rule: generate_loop.induct) auto

lemma p_line_erase_text:
  "(\<lambda>(b, e, t). p_line b e) \<circ> (\<lambda>(b, e, t). (b, e, [])) = (\<lambda>(b, e, t). p_line b e)"
  by (auto simp: fun_eq_iff)

section \<open>Properties of the comparator\<close>

lemma parses_iff: "parses tc \<longleftrightarrow> (\<exists>n. timecode_to_frames tc = Inr n)"
  unfolding parses_def by (cases "timecode_to_frames tc") auto

lemma parses_frames_of: "parses tc \<Longrightarrow> timecode_to_frames tc = Inr (frames_of tc)"
  by (auto simp: parses_iff frames_of_def)

lemma frames_differ_ok:
  "parses a \<Longrightarrow> parses b \<Longrightarrow> frames_differ a b = Inr (abs (frames_of a - frames_of b) > 3)"
  by (simp add: frames_differ_def parses_frames_of)

lemma compare_loop_zip:
  "list_all (\<lambda>(r, t). cue_ok r \<and> cue_ok t) (zip R (drop i T)) \<Longrightarrow>
   compare_loop i R T acc =
     Inr (acc @ map (\<lambda>(r, t). (cue_text r, cue_text t))
                 (filter (\<lambda>(r, t). drifted r t) (zip R (drop i T))))"
proof (induction R arbitrary: i acc)
  case Nil
  then show ?case by simp
next
  case (Cons r R)
  obtain es ee et where r: "r = (es, ee, et)" by (cases r) auto
  show ?case
  proof (cases "i \<ge> length T")
    case True
    then show ?thesis by (simp add: r)
  next
    case False
    then have i: "i < length T" by simp
    then have d: "drop i T = T ! i # drop (Suc i) T"
      by (simp add: Cons_nth_drop_Suc)
    obtain ss se st where t: "T ! i = (ss, se, st)" by (cases "T ! i") auto
    from Cons.prems d r t have ok: "parses es" "parses ee" "parses ss" "parses se"
      and rest: "list_all (\<lambda>(r, t). cue_ok r \<and> cue_ok t) (zip R (drop (Suc i) T))"
      by (simp_all add: cue_ok_def)
    note IH = Cons.IH [OF rest]
    have dr: "drifted r (T ! i) \<longleftrightarrow>
        abs (frames_of es - frames_of ss) > 3 \<or> abs (frames_of ee - frames_of se) > 3"
      by (simp add: drifted_def start_frames_def end_frames_def r t)
    show ?thesis
    proof (cases "abs (frames_of es - frames_of ss) > 3")
      case True
      with i ok dr show ?thesis
        by (simp add: r t d IH frames_differ_ok cue_text_def del: drop_Suc)
    next
      case False
      with i ok dr show ?thesis
        by (simp add: r t d IH frames_differ_ok cue_text_def del: drop_Suc)
    qed
  qed
qed

lemma zip_index:
  "zip xs ys = map (\<lambda>i. (xs ! i, ys ! i)) [0..<min (length xs) (length ys)]"
  by (rule nth_equalityI) auto

lemma issues_zip_index:
  "map (\<lambda>(r, t). (cue_text r, cue_text t)) (filter (\<lambda>(r, t). drifted r t) (zip R T)) =
   timecode_issues_spec R T"
  unfolding timecode_issues_spec_def
  by (subst zip_index) (simp add: filter_map comp_def)

lemma compare_loop_spec:
  "aligned_ok R T \<Longrightarrow> compare_loop 0 R T [] = Inr (timecode_issues_spec R T)"
  using compare_loop_zip [of R 0 T "[]"] by (simp add: aligned_ok_def issues_zip_index)

lemma aligned_ok_examples: "aligned_ok ref3 tra5" "aligned_ok tra5 ref3"
  by (simp_all add: aligned_ok_def ref3_def tra5_def cue_ok_def parses_def example_frames)

lemma issues_examples:
  "timecode_issues_spec ref3 tra5 = [(lit ''World'', lit ''Monde''), (lit ''Bye'', lit ''Salut'')]"
  "timecode_issues_spec tra5 ref3 = [(lit ''Monde'', lit ''World''), (lit ''Salut'', lit ''Bye'')]"
  unfolding issues_zip_index [symmetric]
  by (simp_all add: ref3_def tra5_def drifted_def start_frames_def end_frames_def frames_of_def
      cue_text_def example_frames)

section \<open>Properties of the overlap checker\<close>

lemma overlap_spec_Cons:
  "overlap_spec (c # cs) \<longleftrightarrow> (cs \<noteq> [] \<and> start_frames (hd cs) < end_frames c) \<or> overlap_spec cs"
proof
  assume "overlap_spec (c # cs)"
  then obtain i where i: "Suc i < length (c # cs)"
    and lt: "start_frames ((c # cs) ! Suc i) < end_frames ((c # cs) ! i)"
    unfolding overlap_spec_def by blast
  show "(cs \<noteq> [] \<and> start_frames (hd cs) < end_frames c) \<or> overlap_spec cs"
  proof (cases i)
    case 0
    with i lt show ?thesis by (cases cs) auto
  next
    case (Suc j)
    with i lt have "Suc j < length cs \<and> start_frames (cs ! Suc j) < end_frames (cs ! j)"
      by simp
    then show ?thesis unfolding overlap_spec_def by blast
  qed
next
  assume "(cs \<noteq> [] \<and> start_frames (hd cs) < end_frames c) \<or> overlap_spec cs"
  then show "overlap_spec (c # cs)"
  proof
    assume "cs \<noteq> [] \<and> start_frames (hd cs) < end_frames c"
    then have "Suc 0 < length (c # cs) \<and>
        start_frames ((c # cs) ! Suc 0) < end_frames ((c # cs) ! 0)"
      by (cases cs) auto
    then show ?thesis unfolding overlap_spec_def by blast
  next
    assume "overlap_spec cs"
    then obtain i where "Suc i < length cs" "start_frames (cs ! Suc i) < end_frames (cs ! i)"
      unfolding overlap_spec_def by blast
    then have "Suc (Suc i) < length (c # cs) \<and>
        start_frames ((c # cs) ! Suc (Suc i)) < end_frames ((c # cs) ! Suc i)"
      by simp
    then show ?thesis unfolding overlap_spec_def by blast
  qed
qed

lemma overlap_spec_Nil: "\<not> overlap_spec []"
  by (simp add: overlap_spec_def)

lemma overlap_loop_spec:
  "list_all cue_ok cs \<Longrightarrow>
   overlap_loop prev_end cs =
     Inr ((case prev_end of None \<Rightarrow> False | Some p \<Rightarrow> cs \<noteq> [] \<and> start_frames (hd cs) < p) \<or>
          overlap_spec cs)"
proof (induction cs arbitrary: prev_end)
  case Nil
  then show ?case by (simp add: overlap_spec_Nil split: option.splits)
next
  case (Cons c cs)
  obtain s e t where c: "c = (s, e, t)" by (cases c) auto
  from Cons.prems have okc: "cue_ok c" and rest: "list_all cue_ok cs"
    by simp_all
  from okc c have ok: "parses s" "parses e"
    by (simp_all add: cue_ok_def)
  have sf: "start_frames c = frames_of s" "end_frames c = frames_of e"
    by (simp_all add: c start_frames_def end_frames_def)
  show ?case
    using ok sf
    by (simp add: c parses_frames_of Cons.IH [OF rest] overlap_spec_Cons [of c cs, unfolded c]
        split: option.splits)
qed

section \<open>Properties of the extractor\<close>

subsection \<open>Decimal digits and timecode strings\<close>

lemma lookup_decimal_SomeD:
  "lookup_decimal ss c = Some d \<Longrightarrow> d < 10 \<and> (\<exists>s \<in> set ss. c = s + d)"
  by (induction ss) (auto split: if_splits)

lemma to_decimal_less: "to_decimal c = Some d \<Longrightarrow> d < 10"
  unfolding to_decimal_def by (drule lookup_decimal_SomeD) simp

lemma to_decimal_ascii: "to_decimal c = Some d \<Longrightarrow> c < 127 \<Longrightarrow> c = 48 + d"
  unfolding to_decimal_def
  by (drule lookup_decimal_SomeD) (auto simp: decimal_starts_def)

lemma unicode_space_not_decimal: "unicode_space c \<Longrightarrow> to_decimal c = None"
  unfolding unicode_space_def to_decimal_def decimal_starts_def
  by (elim disjE) simp_all

lemma colon_not_decimal: "\<not> is_decimal 58"
  by (simp add: is_decimal_def to_decimal_def decimal_starts_def)

lemma is_decimal_not_colon: "is_decimal c \<Longrightarrow> c \<noteq> 58"
  using colon_not_decimal by auto

lemma transform_decimal:
  "to_decimal c = Some d \<Longrightarrow>
   transform_decimal_and_space (c # rest) = (48 + d) # transform_decimal_and_space rest"
  by (auto dest: to_decimal_ascii unicode_space_not_decimal)

lemma int_py_two_decimals:
  assumes "to_decimal a = Some x" and "to_decimal b = Some y"
  shows "int_py [a, b] = Inr (int (10 * x + y))"
proof -
  from assms have x: "x < 10" and y: "y < 10"
    by (auto dest: to_decimal_less)
  have t: "transform_decimal_and_space [a, b] = [48 + x, 48 + y]"
    using assms by (simp add: transform_decimal del: transform_decimal_and_space.simps(2))
  from x y show ?thesis
    unfolding int_py_def t
    by (simp add: long_from_string_def ascii_space_def digits_value_def max_str_digits_def)
qed

lemma two_decimals_int:
  "two_decimals p \<Longrightarrow> \<exists>v. int_py p = Inr v \<and> 0 \<le> v"
proof -
  assume "two_decimals p"
  then obtain a b where p: "p = [a, b]" and d: "is_decimal a" "is_decimal b"
    by (auto simp: two_decimals_def length_Suc_conv numeral_eq_Suc)
  from d obtain x y where "to_decimal a = Some x" "to_decimal b = Some y"
    by (auto simp: is_decimal_def)
  then have "int_py p = Inr (int (10 * x + y))"
    unfolding p by (rule int_py_two_decimals)
  then show ?thesis by auto
qed

lemma timecode_shape_parses:
  assumes "timecode_shape tc"
  shows "\<exists>n. timecode_to_frames tc = Inr n \<and> 0 \<le> n"
proof -
  from assms obtain p1 p2 p3 p4 where ps: "split 0x3a tc = [p1, p2, p3, p4]"
    and d: "two_decimals p1" "two_decimals p2" "two_decimals p3" "two_decimals p4"
    by (auto simp: timecode_shape_def Let_def length_4_iff)
  from d obtain h m s f where i: "int_py p1 = Inr h" "int_py p2 = Inr m" "int_py p3 = Inr s"
      "int_py p4 = Inr f" and nn: "0 \<le> h" "0 \<le> m" "0 \<le> s" "0 \<le> f"
    by (blast dest: two_decimals_int)
  from ps i have "timecode_to_frames tc = Inr ((h * 3600 + m * 60 + s) * 30 + f)"
    by (auto simp: timecode_to_frames_Inr_iff)
  moreover from nn have "0 \<le> (h * 3600 + m * 60 + s) * 30 + f"
    by simp
  ultimately show ?thesis by blast
qed

lemma match_lit_iff: "match_lit l s = Some r \<longleftrightarrow> s = l @ r"
  by (induction l s rule: match_lit.induct) auto

lemma match_d2_iff:
  "match_d2 s = Some (g, r) \<longleftrightarrow> (\<exists>a b. g = [a, b] \<and> s = a # b # r \<and> is_decimal a \<and> is_decimal b)"
  by (induction s rule: match_d2.induct) auto

lemma match_colon_d2_iff:
  "match_colon_d2 s = Some (g, r) \<longleftrightarrow>
     (\<exists>a b. g = [58, a, b] \<and> s = 58 # a # b # r \<and> is_decimal a \<and> is_decimal b)"
  by (auto simp: match_colon_d2_def match_lit_iff match_d2_iff split: option.splits)

lemma match_colon_d2_eval:
  "is_decimal a \<Longrightarrow> is_decimal b \<Longrightarrow> match_colon_d2 (58 # a # b # r) = Some ([58, a, b], r)"
  by (simp add: match_colon_d2_def)

lemma match_tc_iff:
  "match_tc s = Some (g, r) \<longleftrightarrow>
     (\<exists>a b c d e f x y.
        g = [a, b, 58, c, d, 58, e, f, 58, x, y] \<and> s = g @ r \<and>
        is_decimal a \<and> is_decimal b \<and> is_decimal c \<and> is_decimal d \<and>
        is_decimal e \<and> is_decimal f \<and> is_decimal x \<and> is_decimal y)"
proof
  assume "match_tc s = Some (g, r)"
  then show "\<exists>a b c d e f x y.
        g = [a, b, 58, c, d, 58, e, f, 58, x, y] \<and> s = g @ r \<and>
        is_decimal a \<and> is_decimal b \<and> is_decimal c \<and> is_decimal d \<and>
        is_decimal e \<and> is_decimal f \<and> is_decimal x \<and> is_decimal y"
    by (auto simp: match_tc_def match_d2_iff match_colon_d2_iff split: option.splits)
next
  assume "\<exists>a b c d e f x y.
        g = [a, b, 58, c, d, 58, e, f, 58, x, y] \<and> s = g @ r \<and>
        is_decimal a \<and> is_decimal b \<and> is_decimal c \<and> is_decimal d \<and>
        is_decimal e \<and> is_decimal f \<and> is_decimal x \<and> is_decimal y"
  then show "match_tc s = Some (g, r)"
    by (auto simp: match_tc_def match_colon_d2_eval)
qed

lemma split_no_sep: "sep \<notin> set p \<Longrightarrow> split sep p = [p]"
  by (induction p) (auto simp: Let_def)

lemma split_append_sep:
  "sep \<notin> set p \<Longrightarrow> split sep (p @ sep # s) = p # split sep s"
  by (induction p) (auto simp: Let_def)

lemma split_not_Nil: "split sep s \<noteq> []"
  by (induction s) (auto simp: Let_def)

lemma split_ConsD:
  "split sep s = p # ps \<Longrightarrow>
     sep \<notin> set p \<and> (if ps = [] then s = p else \<exists>s'. s = p @ sep # s' \<and> split sep s' = ps)"
proof (induction s arbitrary: p ps)
  case Nil
  then show ?case by simp
next
  case (Cons c s)
  show ?case
  proof (cases "c = sep")
    case True
    with Cons.prems have "p = []" "ps = split sep s"
      by (simp_all add: Let_def)
    with True show ?thesis by (simp add: split_not_Nil)
  next
    case False
    obtain q qs where q: "split sep s = q # qs"
      using split_not_Nil [of sep s] by (cases "split sep s") auto
    with False Cons.prems have p: "p = c # q" "ps = qs"
      by (simp_all add: Let_def)
    from Cons.IH [OF q] False p show ?thesis
      by (auto split: if_splits)
  qed
qed

lemma split_4_iff:
  "split sep s = [p1, p2, p3, p4] \<longleftrightarrow>
     s = p1 @ sep # p2 @ sep # p3 @ sep # p4 \<and>
     sep \<notin> set p1 \<and> sep \<notin> set p2 \<and> sep \<notin> set p3 \<and> sep \<notin> set p4"
proof
  assume a: "split sep s = [p1, p2, p3, p4]"
  from split_ConsD [OF a] obtain s1 where 1: "sep \<notin> set p1" "s = p1 @ sep # s1"
    "split sep s1 = [p2, p3, p4]" by auto
  from split_ConsD [OF 1(3)] obtain s2 where 2: "sep \<notin> set p2" "s1 = p2 @ sep # s2"
    "split sep s2 = [p3, p4]" by auto
  from split_ConsD [OF 2(3)] obtain s3 where 3: "sep \<notin> set p3" "s2 = p3 @ sep # s3"
    "split sep s3 = [p4]" by auto
  from split_ConsD [OF 3(3)] have 4: "sep \<notin> set p4" "s3 = p4" by auto
  from 1 2 3 4 show "s = p1 @ sep # p2 @ sep # p3 @ sep # p4 \<and>
     sep \<notin> set p1 \<and> sep \<notin> set p2 \<and> sep \<notin> set p3 \<and> sep \<notin> set p4"
    by simp
next
  assume "s = p1 @ sep # p2 @ sep # p3 @ sep # p4 \<and>
     sep \<notin> set p1 \<and> sep \<notin> set p2 \<and> sep \<notin> set p3 \<and> sep \<notin> set p4"
  then show "split sep s = [p1, p2, p3, p4]"
    by (simp add: split_append_sep split_no_sep)
qed

lemma two_decimals_iff: "two_decimals p \<longleftrightarrow> (\<exists>a b. p = [a, b] \<and> is_decimal a \<and> is_decimal b)"
  by (auto simp: two_decimals_def length_Suc_conv numeral_eq_Suc)

lemma two_decimals_no_colon: "two_decimals p \<Longrightarrow> 58 \<notin> set p"
  by (auto simp: two_decimals_iff dest: is_decimal_not_colon)

lemma timecode_shape_iff:
  "timecode_shape g \<longleftrightarrow>
     (\<exists>a b c d e f x y.
        g = [a, b, 58, c, d, 58, e, f, 58, x, y] \<and>
        is_decimal a \<and> is_decimal b \<and> is_decimal c \<and> is_decimal d \<and>
        is_decimal e \<and> is_decimal f \<and> is_decimal x \<and> is_decimal y)"
proof
  assume "timecode_shape g"
  then obtain p1 p2 p3 p4 where ps: "split 58 g = [p1, p2, p3, p4]"
    and d: "two_decimals p1" "two_decimals p2" "two_decimals p3" "two_decimals p4"
    by (auto simp: timecode_shape_def Let_def length_4_iff)
  from ps have g: "g = p1 @ 58 # p2 @ 58 # p3 @ 58 # p4"
    by (simp add: split_4_iff)
  from d g show "\<exists>a b c d e f x y.
        g = [a, b, 58, c, d, 58, e, f, 58, x, y] \<and>
        is_decimal a \<and> is_decimal b \<and> is_decimal c \<and> is_decimal d \<and>
        is_decimal e \<and> is_decimal f \<and> is_decimal x \<and> is_decimal y"
    unfolding two_decimals_iff by auto
next
  assume "\<exists>a b c d e f x y.
        g = [a, b, 58, c, d, 58, e, f, 58, x, y] \<and>
        is_decimal a \<and> is_decimal b \<and> is_decimal c \<and> is_decimal d \<and>
        is_decimal e \<and> is_decimal f \<and> is_decimal x \<and> is_decimal y"
  then obtain a b c d e f x y where g: "g = [a, b] @ 58 # [c, d] @ 58 # [e, f] @ 58 # [x, y]"
    and d: "two_decimals [a, b]" "two_decimals [c, d]" "two_decimals [e, f]" "two_decimals [x, y]"
    unfolding two_decimals_iff by auto
  have "split 58 g = [[a, b], [c, d], [e, f], [x, y]]"
    unfolding split_4_iff using g d by (blast dest: two_decimals_no_colon)
  with d show "timecode_shape g"
    by (simp add: timecode_shape_def)
qed

lemma match_tc_shape: "match_tc s = Some (g, r) \<longleftrightarrow> s = g @ r \<and> timecode_shape g"
  unfolding match_tc_iff timecode_shape_iff by blast

subsection \<open>The matcher and the fragments of the specification\<close>

lemma occurs_at_0: "occurs_at pat s 0 \<longleftrightarrow> (\<exists>x. s = pat @ x)"
  unfolding occurs_at_def
  by (metis append_eq_conv_conj append_take_drop_id drop0)

lemma occurs_at_Suc: "occurs_at pat (c # s) (Suc i) = occurs_at pat s i"
  by (simp add: occurs_at_def)

lemma match_lit_None_iff: "match_lit l s = None \<longleftrightarrow> \<not> (\<exists>r. s = l @ r)"
  using match_lit_iff [of l s] by (cases "match_lit l s") auto

lemma close_p_length: "length close_p = 4"
  by (simp add: close_p_def lit_def)

lemma occurs_at_close_0_append:
  "occurs_at close_p (c # inner @ close_p) 0 \<longleftrightarrow> occurs_at close_p (c # inner @ close_p @ r) 0"
  by (simp add: occurs_at_def close_p_length)

lemma match_inner_D:
  "match_inner s = Some (inner, r) \<Longrightarrow>
     s = inner @ close_p @ r \<and> 10 \<notin> set inner \<and>
     (\<forall>i < length inner. \<not> occurs_at close_p (inner @ close_p) i)"
proof (induction s arbitrary: inner)
  case Nil
  then show ?case by simp
next
  case (Cons c cs)
  show ?case
  proof (cases "match_lit close_p (c # cs)")
    case (Some rest)
    with Cons.prems have "inner = []" "r = rest" by simp_all
    with Some show ?thesis by (simp add: match_lit_iff)
  next
    case None
    with Cons.prems obtain inner' where c: "c \<noteq> 10" and m: "match_inner cs = Some (inner', r)"
      and inner: "inner = c # inner'"
      by (auto split: if_splits option.splits)
    from Cons.IH [OF m] have cs: "cs = inner' @ close_p @ r" and nl: "10 \<notin> set inner'"
      and sh: "\<forall>i < length inner'. \<not> occurs_at close_p (inner' @ close_p) i"
      by simp_all
    from None have "\<not> occurs_at close_p (c # cs) 0"
      by (simp add: match_lit_None_iff occurs_at_0)
    then have z: "\<not> occurs_at close_p (c # inner' @ close_p) 0"
      unfolding cs by (simp add: occurs_at_close_0_append [symmetric])
    have "\<not> occurs_at close_p (inner @ close_p) i" if "i < length inner" for i
    proof (cases i)
      case 0
      with z inner show ?thesis by simp
    next
      case (Suc j)
      with that inner sh show ?thesis by (simp add: occurs_at_Suc)
    qed
    with cs c nl inner show ?thesis by simp
  qed
qed

lemma match_inner_I:
  "10 \<notin> set inner \<Longrightarrow> (\<forall>i < length inner. \<not> occurs_at close_p (inner @ close_p) i) \<Longrightarrow>
   match_inner (inner @ close_p @ r) = Some (inner, r)"
proof (induction inner)
  case Nil
  have "close_p @ r = 60 # ([47, 112, 62] @ r)"
    by (simp add: close_p_def lit_def)
  moreover have "match_lit close_p (close_p @ r) = Some r"
    by (simp add: match_lit_iff)
  ultimately show ?case
    by (metis append_Nil match_inner.simps(2) option.simps(5))
next
  case (Cons c inner)
  from Cons.prems have c: "c \<noteq> 10" and nl: "10 \<notin> set inner" by auto
  from Cons.prems(2) have z: "\<not> occurs_at close_p (c # inner @ close_p) 0"
    by auto
  have sh: "\<forall>i < length inner. \<not> occurs_at close_p (inner @ close_p) i"
  proof (intro allI impI)
    fix i assume "i < length inner"
    then have "Suc i < length (c # inner)" by simp
    with Cons.prems(2) have "\<not> occurs_at close_p ((c # inner) @ close_p) (Suc i)" by blast
    then show "\<not> occurs_at close_p (inner @ close_p) i" by (simp add: occurs_at_Suc)
  qed
  from z have "\<not> occurs_at close_p (c # inner @ close_p @ r) 0"
    using occurs_at_close_0_append [of c inner r] by blast
  then have "match_lit close_p (c # inner @ close_p @ r) = None"
    by (simp add: match_lit_None_iff occurs_at_0)
  with c Cons.IH [OF nl sh] show ?case by simp
qed

lemma match_inner_iff:
  "match_inner s = Some (inner, r) \<longleftrightarrow>
     s = inner @ close_p @ r \<and> 10 \<notin> set inner \<and>
     (\<forall>i < length inner. \<not> occurs_at close_p (inner @ close_p) i)"
  using match_inner_D match_inner_I by blast

lemma match_p_iff: "match_p s = Some (c, rest) \<longleftrightarrow> p_shape s c rest"
proof
  assume "match_p s = Some (c, rest)"
  then show "p_shape s c rest"
    by (auto simp: match_p_def p_shape_def p_shape_claimed_def cue_text_def match_lit_iff
        match_tc_shape match_inner_iff close_p_def split: option.splits)
next
  assume a: "p_shape s c rest"
  obtain b e inner where c: "c = (b, e, inner)" by (cases c) auto
  from a c have s: \<open>s = lit ''<p begin="'' @ b @ lit ''" end="'' @ e @ lit ''">'' @
            inner @ close_p @ rest\<close>
    and tb: "timecode_shape b" and te: "timecode_shape e"
    and sh: "\<forall>i < length inner. \<not> occurs_at close_p (inner @ close_p) i"
    and nl: "10 \<notin> set inner"
    by (simp_all add: p_shape_def p_shape_claimed_def cue_text_def close_p_def)
  have 1: \<open>match_lit (lit ''<p begin="'') s =
      Some (b @ lit ''" end="'' @ e @ lit ''">'' @ inner @ close_p @ rest)\<close>
    unfolding match_lit_iff s by simp
  have 2: \<open>match_tc (b @ lit ''" end="'' @ e @ lit ''">'' @ inner @ close_p @ rest) =
      Some (b, lit ''" end="'' @ e @ lit ''">'' @ inner @ close_p @ rest)\<close>
    unfolding match_tc_shape using tb by simp
  have 3: \<open>match_lit (lit ''" end="'') (lit ''" end="'' @ e @ lit ''">'' @ inner @ close_p @ rest) =
      Some (e @ lit ''">'' @ inner @ close_p @ rest)\<close>
    unfolding match_lit_iff by simp
  have 4: \<open>match_tc (e @ lit ''">'' @ inner @ close_p @ rest) =
      Some (e, lit ''">'' @ inner @ close_p @ rest)\<close>
    unfolding match_tc_shape using te by simp
  have 5: \<open>match_lit (lit ''">'') (lit ''">'' @ inner @ close_p @ rest) =
      Some (inner @ close_p @ rest)\<close>
    unfolding match_lit_iff by simp
  have 6: "match_inner (inner @ close_p @ rest) = Some (inner, rest)"
    using nl sh by (rule match_inner_I)
  show "match_p s = Some (c, rest)"
    unfolding match_p_def by (simp add: 1 2 3 4 5 6 c)
qed

lemma match_p_Nil: "match_p [] = None"
  by (simp add: match_p_def lit_def)

lemma findall_p_match: "match_p m = Some (c, rest) \<Longrightarrow> findall_p m = c # findall_p rest"
  by (cases m) (simp_all add: match_p_Nil)

lemma findall_p_no_match:
  "(\<And>i. i \<le> length s \<Longrightarrow> match_p (drop i s) = None) \<Longrightarrow> findall_p s = []"
proof (induction s)
  case Nil
  then show ?case by simp
next
  case (Cons c s)
  from Cons.prems [of 0] have 0: "match_p (c # s) = None" by simp
  have "match_p (drop i s) = None" if "i \<le> length s" for i
    using Cons.prems [of "Suc i"] that by simp
  then have "findall_p s = []" by (rule Cons.IH)
  with 0 show ?case by simp
qed

lemma findall_p_skip:
  "(\<And>i. i < length pre \<Longrightarrow> match_p (drop i (pre @ m)) = None) \<Longrightarrow>
   findall_p (pre @ m) = findall_p m"
proof (induction pre)
  case Nil
  then show ?case by simp
next
  case (Cons c pre)
  from Cons.prems [of 0] have 0: "match_p (c # pre @ m) = None" by simp
  have "match_p (drop i (pre @ m)) = None" if "i < length pre" for i
    using Cons.prems [of "Suc i"] that by simp
  then have "findall_p (pre @ m) = findall_p m" by (rule Cons.IH)
  with 0 show ?case by simp
qed

lemma not_p_shape_iff: "(\<forall>c r. \<not> p_shape s c r) \<longleftrightarrow> match_p s = None"
proof (cases "match_p s")
  case None
  then show ?thesis by (simp add: match_p_iff [symmetric])
next
  case (Some a)
  then obtain c r where "match_p s = Some (c, r)" by (cases a) auto
  then have "p_shape s c r" by (simp add: match_p_iff)
  then have "\<exists>c r. p_shape s c r" by blast
  with Some show ?thesis by simp
qed

lemma scan_findall_p: "scan p_shape s cs \<Longrightarrow> findall_p s = cs"
proof (induction rule: scan.induct)
  case (scan_done s)
  then show ?case
    by (intro findall_p_no_match) (simp add: not_p_shape_iff [symmetric])
next
  case (scan_next pre m c rest cs)
  from scan_next.hyps(1) have "findall_p (pre @ m) = findall_p m"
    by (intro findall_p_skip) (simp add: not_p_shape_iff [symmetric])
  moreover from scan_next.hyps(2) have "match_p m = Some (c, rest)"
    by (simp add: match_p_iff)
  ultimately show ?case
    using scan_next.IH by (simp add: findall_p_match)
qed

lemma scan_Cons_no_shape:
  assumes "scan shape s cs" and no: "\<And>c' r. \<not> shape (x # s) c' r"
  shows "scan shape (x # s) cs"
  using assms(1)
proof (cases rule: scan.cases)
  case scan_done
  have "\<not> shape (drop i (x # s)) c r" if "i \<le> length (x # s)" for i c r
  proof (cases i)
    case 0
    with no show ?thesis by simp
  next
    case (Suc j)
    with that scan_done(2) [of j c r] show ?thesis by simp
  qed
  then have "scan shape (x # s) []" by (rule scan.scan_done)
  with scan_done(1) show ?thesis by simp
next
  case (scan_next pre m c rest cs')
  have "\<not> shape (drop i ((x # pre) @ m)) c' r" if "i < length (x # pre)" for i c' r
  proof (cases i)
    case 0
    with no scan_next(1) show ?thesis by simp
  next
    case (Suc j)
    with that scan_next(3) [of j c' r] show ?thesis by simp
  qed
  then have "scan shape ((x # pre) @ m) (c # cs')"
    using scan_next(4,5) by (rule scan.scan_next)
  with scan_next(1,2) show ?thesis by simp
qed

lemma findall_p_scan: "scan p_shape s (findall_p s)"
proof (induction s rule: findall_p.induct)
  case 1
  have "scan p_shape [] []"
    by (rule scan_done) (simp add: match_p_iff [symmetric] match_p_Nil)
  then show ?case by simp
next
  case (2 c cs)
  show ?case
  proof (cases "match_p (c # cs)")
    case None
    then have "scan p_shape cs (findall_p cs)" by (rule "2.IH"(1))
    moreover from None have "\<not> p_shape (c # cs) c' r" for c' r
      by (simp add: match_p_iff [symmetric])
    ultimately have "scan p_shape (c # cs) (findall_p cs)"
      by (rule scan_Cons_no_shape)
    with None show ?thesis by simp
  next
    case (Some a)
    obtain g rest where a: "a = (g, rest)" by (cases a) auto
    from Some a have m: "match_p (c # cs) = Some (g, rest)" by simp
    have "scan p_shape rest (findall_p rest)"
      by (rule "2.IH"(2) [OF Some a [symmetric]])
    moreover from m have "p_shape (c # cs) g rest" by (simp add: match_p_iff)
    ultimately have "scan p_shape ([] @ (c # cs)) (g # findall_p rest)"
      by (intro scan_next) simp_all
    with m show ?thesis by simp
  qed
qed

lemma findall_p_shapes:
  "list_all (\<lambda>(b, e, t). timecode_shape b \<and> timecode_shape e) (findall_p s)"
proof (induction s rule: findall_p.induct)
  case 1
  show ?case by simp
next
  case (2 c cs)
  show ?case
  proof (cases "match_p (c # cs)")
    case None
    from "2.IH"(1) [OF None] None show ?thesis by simp
  next
    case (Some a)
    obtain b e t rest where a: "a = ((b, e, t), rest)" by (cases a) auto
    from Some a have m: "match_p (c # cs) = Some ((b, e, t), rest)" by simp
    then have "p_shape (c # cs) (b, e, t) rest" by (simp add: match_p_iff)
    then have "timecode_shape b \<and> timecode_shape e"
      by (simp add: p_shape_def p_shape_claimed_def)
    with "2.IH"(2) [OF Some, of "(b, e, t)" rest] a m show ?thesis by simp
  qed
qed

subsection \<open>The extractor on decoded documents\<close>

lemma cue_ok_of_shapes:
  "timecode_shape b \<Longrightarrow> timecode_shape e \<Longrightarrow> cue_ok (b, e, t)"
  by (auto simp: cue_ok_def parses_iff dest: timecode_shape_parses)

lemma findall_p_cue_ok: "list_all cue_ok (findall_p s)"
  using findall_p_shapes [of s]
  by (auto simp: list_all_iff intro: cue_ok_of_shapes)

lemma aligned_ok_of_cue_ok: "list_all cue_ok R \<Longrightarrow> list_all cue_ok T \<Longrightarrow> aligned_ok R T"
  by (auto simp: aligned_ok_def list_all_iff dest: set_zip_leftD set_zip_rightD)

lemma compare_files_returns: "aligned_ok R T \<Longrightarrow> \<exists>res. compare_files R T = Inr res"
  by (simp add: compare_files_def compare_loop_spec)

lemma check_timecode_overlap_returns:
  "list_all cue_ok cs \<Longrightarrow> \<exists>flag. check_timecode_overlap cs = Inr flag"
  by (simp add: check_timecode_overlap_def overlap_loop_spec)

lemma extract_itt_data_Inr:
  "extract_itt_data file_content = Inr (cues, lang_code, content) \<Longrightarrow>
     decode_utf8 file_content = Inr content \<and> cues = findall_p content"
  by (auto simp: extract_itt_data_def Let_def split: sum.splits)

lemma extract_itt_data_decoded:
  "decode_utf8 file_content = Inr content \<Longrightarrow>
     \<exists>lang_code. extract_itt_data file_content = Inr (findall_p content, lang_code, content)"
  by (simp add: extract_itt_data_def Let_def)

lemma decode_doc_two_cues: "decode_utf8 (ascii_bytes doc_two_cues) = Inr (lit doc_two_cues)"
  by (simp add: doc_two_cues_def ascii_bytes_def lit_def cons_ok_def)

lemmas extract_eval = match_p_def match_tc_def match_colon_d2_def is_decimal_def to_decimal_def
  decimal_starts_def close_p_def lit_def match_lang_def lang_char_def quote_def

lemma findall_doc_two_cues: "findall_p (lit doc_two_cues) = cues_two"
  by (simp add: doc_two_cues_def cues_two_def extract_eval)

lemma search_lang_doc_two_cues: "search_lang (lit doc_two_cues) = Some (lit ''fr-FR'')"
  by (simp add: doc_two_cues_def extract_eval)

lemma extract_doc_two_cues:
  "extract_itt_data (ascii_bytes doc_two_cues) = Inr (cues_two, lit ''fr-FR'', lit doc_two_cues)"
  by (simp add: extract_itt_data_def decode_doc_two_cues findall_doc_two_cues
      search_lang_doc_two_cues)

lemma occurs_at_iff: "occurs_at pat s i \<longleftrightarrow> (\<exists>x. drop i s = pat @ x)"
  unfolding occurs_at_def
  by (metis append_eq_conv_conj append_take_drop_id)

lemma no_lt_shortest:
  assumes "60 \<notin> set inner"
  shows "\<forall>i < length inner. \<not> occurs_at close_p (inner @ close_p) i"
proof (intro allI impI notI)
  fix i assume i: "i < length inner" and o: "occurs_at close_p (inner @ close_p) i"
  from o obtain x where x: "drop i (inner @ close_p) = close_p @ x"
    by (auto simp: occurs_at_iff)
  from i have "drop i (inner @ close_p) = inner ! i # drop (Suc i) inner @ close_p"
    by (simp add: Cons_nth_drop_Suc)
  with x have "inner ! i = 60"
    by (simp add: close_p_def lit_def)
  with i assms show False
    by (metis nth_mem)
qed

lemma timecode_shape_examples:
  "timecode_shape (lit ''00:00:00:00'')" "timecode_shape (lit ''00:00:02:00'')"
  by (simp_all add: timecode_shape_def two_decimals_def is_decimal_def to_decimal_def
      decimal_starts_def lit_def)

lemma p_shape_claimed_Nil: "\<not> p_shape_claimed [] c r"
  by (cases c) (simp add: p_shape_claimed_def lit_def)

lemma p_shape_claimed_two_lines: "p_shape_claimed (lit doc_two_lines) cue_two_lines []"
proof -
  have "60 \<notin> set (lit ''Hello\<newline>World'')"
    by (simp add: lit_def)
  then have "\<forall>i < length (lit ''Hello\<newline>World'').
      \<not> occurs_at (lit ''</p>'') (lit ''Hello\<newline>World'' @ lit ''</p>'') i"
    using no_lt_shortest by (simp add: close_p_def)
  moreover have \<open>lit doc_two_lines =
      lit ''<p begin="'' @ lit ''00:00:00:00'' @ lit ''" end="'' @ lit ''00:00:02:00'' @
      lit ''">'' @ lit ''Hello\<newline>World'' @ lit ''</p>'' @ []\<close>
    by (simp add: doc_two_lines_def lit_def)
  ultimately show ?thesis
    unfolding p_shape_claimed_def cue_two_lines_def
    using timecode_shape_examples by simp
qed

lemma decode_doc_two_lines: "decode_utf8 (ascii_bytes doc_two_lines) = Inr (lit doc_two_lines)"
  by (simp add: doc_two_lines_def ascii_bytes_def lit_def cons_ok_def)

lemma extract_doc_two_lines:
  "extract_itt_data (ascii_bytes doc_two_lines) = Inr ([], lit ''Unknown'', lit doc_two_lines)"
proof -
  have "findall_p (lit doc_two_lines) = []"
    by (simp add: doc_two_lines_def extract_eval)
  moreover have "search_lang (lit doc_two_lines) = None"
    by (simp add: doc_two_lines_def extract_eval)
  ultimately show ?thesis
    by (simp add: extract_itt_data_def decode_doc_two_lines)
qed

section \<open>Lexical order and frame counts\<close>

lemma to_decimal_ascii_digit: "d < 10 \<Longrightarrow> to_decimal (48 + d) = Some d"
  by (simp add: to_decimal_def decimal_starts_def)

lemma int_py_two_ascii:
  "x < 10 \<Longrightarrow> y < 10 \<Longrightarrow> int_py [48 + x, 48 + y] = Inr (int (10 * x + y))"
  by (rule int_py_two_decimals) (simp_all add: to_decimal_ascii_digit)

lemma two_ascii_digits_iff:
  "two_ascii_digits p \<longleftrightarrow> (\<exists>x y. p = [48 + x, 48 + y] \<and> x < 10 \<and> y < 10)"
proof
  assume "two_ascii_digits p"
  then obtain a b where p: "p = [a, b]" and r: "48 \<le> a" "a \<le> 57" "48 \<le> b" "b \<le> 57"
    by (auto simp: two_ascii_digits_def length_Suc_conv numeral_eq_Suc)
  then have "p = [48 + (a - 48), 48 + (b - 48)] \<and> a - 48 < 10 \<and> b - 48 < 10"
    by auto
  then show "\<exists>x y. p = [48 + x, 48 + y] \<and> x < 10 \<and> y < 10"
    by blast
next
  assume "\<exists>x y. p = [48 + x, 48 + y] \<and> x < 10 \<and> y < 10"
  then show "two_ascii_digits p"
    by (auto simp: two_ascii_digits_def)
qed

lemma two_ascii_digits_no_colon: "two_ascii_digits p \<Longrightarrow> 58 \<notin> set p"
  by (auto simp: two_ascii_digits_def list_all_iff)

lemma ascii_timecode_D:
  assumes "ascii_timecode tc"
  obtains h1 h2 m1 m2 s1 s2 f1 f2 where
    "tc = [48 + h1, 48 + h2, 58, 48 + m1, 48 + m2, 58, 48 + s1, 48 + s2, 58, 48 + f1, 48 + f2]"
    "h1 < 10" "h2 < 10" "m1 < 10" "m2 < 10" "s1 < 10" "s2 < 10" "f1 < 10" "f2 < 10"
    "split 58 tc = [[48 + h1, 48 + h2], [48 + m1, 48 + m2], [48 + s1, 48 + s2], [48 + f1, 48 + f2]]"
proof -
  from assms obtain p1 p2 p3 p4 where ps: "split 58 tc = [p1, p2, p3, p4]"
    and d: "two_ascii_digits p1" "two_ascii_digits p2" "two_ascii_digits p3" "two_ascii_digits p4"
    by (auto simp: ascii_timecode_def Let_def length_4_iff)
  from ps have tc: "tc = p1 @ 58 # p2 @ 58 # p3 @ 58 # p4"
    by (simp add: split_4_iff)
  from d obtain h1 h2 m1 m2 s1 s2 f1 f2 where
    p: "p1 = [48 + h1, 48 + h2]" "p2 = [48 + m1, 48 + m2]" "p3 = [48 + s1, 48 + s2]"
       "p4 = [48 + f1, 48 + f2]"
    and r: "h1 < 10" "h2 < 10" "m1 < 10" "m2 < 10" "s1 < 10" "s2 < 10" "f1 < 10" "f2 < 10"
    unfolding two_ascii_digits_iff by blast
  show thesis
    by (rule that [OF _ r]) (simp_all add: tc p ps [unfolded tc p, simplified])
qed

lemma ascii_timecode_frames:
  assumes "split 58 tc = [[48 + h1, 48 + h2], [48 + m1, 48 + m2], [48 + s1, 48 + s2], [48 + f1, 48 + f2]]"
    and "h1 < 10" "h2 < 10" "m1 < 10" "m2 < 10" "s1 < 10" "s2 < 10" "f1 < 10" "f2 < 10"
  shows "timecode_to_frames tc =
    Inr ((int (10 * h1 + h2) * 3600 + int (10 * m1 + m2) * 60 + int (10 * s1 + s2)) * 30 +
         int (10 * f1 + f2))"
    and "fields_in_range tc \<longleftrightarrow> 10 * m1 + m2 < 60 \<and> 10 * s1 + s2 < 60 \<and> 10 * f1 + f2 < 30"
proof -
  have u: "unpack 4 (split 58 tc) =
      Inr [int (10 * h1 + h2), int (10 * m1 + m2), int (10 * s1 + s2), int (10 * f1 + f2)]"
    unfolding assms(1) unpack_Inr_iff using assms(2-) by (simp add: int_py_two_ascii)
  show "timecode_to_frames tc =
    Inr ((int (10 * h1 + h2) * 3600 + int (10 * m1 + m2) * 60 + int (10 * s1 + s2)) * 30 +
         int (10 * f1 + f2))"
    by (simp add: timecode_to_frames_def u)
  show "fields_in_range tc \<longleftrightarrow> 10 * m1 + m2 < 60 \<and> 10 * s1 + s2 < 60 \<and> 10 * f1 + f2 < 30"
  proof -
    have c: "(10 * int m1 + int m2 < 60) = (10 * m1 + m2 < 60)"
      "(10 * int s1 + int s2 < 60) = (10 * s1 + s2 < 60)"
      "(10 * int f1 + int f2 < 30) = (10 * f1 + f2 < 30)"
      by linarith+
    show ?thesis
      by (simp add: fields_in_range_def u c)
  qed
qed

lemma lex_frames_le:
  fixes h m s f h' m' s' f' :: nat
  assumes "m < 60" "s < 60" "f < 30"
    and "h < h' \<or> (h = h' \<and> (m < m' \<or> (m = m' \<and> (s < s' \<or> (s = s' \<and> f \<le> f')))))"
  shows "(int h * 3600 + int m * 60 + int s) * 30 + int f \<le>
         (int h' * 3600 + int m' * 60 + int s') * 30 + int f'"
  using assms by auto

lemma two_digits_less:
  fixes x1 x2 y1 y2 :: nat
  assumes "x2 < 10" "y2 < 10"
  shows "10 * x1 + x2 < 10 * y1 + y2 \<longleftrightarrow> x1 < y1 \<or> (x1 = y1 \<and> x2 < y2)"
  using assms by linarith

lemma two_digits_eq:
  fixes x1 x2 y1 y2 :: nat
  assumes "x2 < 10" "y2 < 10"
  shows "10 * x1 + x2 = 10 * y1 + y2 \<longleftrightarrow> x1 = y1 \<and> x2 = y2"
proof
  assume e: "10 * x1 + x2 = 10 * y1 + y2"
  have "x1 = y1" using assms e by linarith
  with e show "x1 = y1 \<and> x2 = y2" by simp
next
  assume "x1 = y1 \<and> x2 = y2"
  then show "10 * x1 + x2 = 10 * y1 + y2" by simp
qed

lemma ascii_timecode_examples:
  "ascii_timecode (lit ''00:00:00:99'')" "ascii_timecode (lit ''00:00:01:00'')"
  "ascii_timecode (lit ''00:59:59:29'')" "ascii_timecode (lit ''01:00:00:00'')"
  by (simp_all add: ascii_timecode_def two_ascii_digits_def lit_def)

lemma str_less_examples:
  "str_less (lit ''00:00:00:99'') (lit ''00:00:01:00'')"
  "str_less (lit ''00:59:59:29'') (lit ''01:00:00:00'')"
  by (simp_all add: lit_def)

lemma more_example_frames:
  "timecode_to_frames (lit ''00:00:00:99'') = Inr 99"
  "timecode_to_frames (lit ''00:59:59:29'') = Inr 107999"
  "timecode_to_frames (lit ''01:00:00:00'') = Inr 108000"
  by (simp_all add: tc_eval)

lemma fields_in_range_example: "fields_in_range (lit ''00:59:59:29'')"
  by (simp add: fields_in_range_def tc_eval)

section \<open>The claims\<close>

subsection \<open>C4: the frame count of a timecode\<close>

text \<open>
  Claim C4. For every timecode string that splits on \<open>:\<close> into exactly four
  integer-parsable components \<open>H\<close>, \<open>M\<close>, \<open>S\<close>, \<open>F\<close>, \<open>timecode_to_frames\<close> returns the
  frame count \<open>((H * 3600 + M * 60 + S) * 30) + F\<close>; the witness evaluates it at
  \<open>"00:00:01:00"\<close> (30) and at \<open>"01:00:00:00"\<close> (108000).
\<close>

theorem parse_formula:
  assumes "split 0x3a tc = [p1, p2, p3, p4]"
    and "int_py p1 = Inr H" and "int_py p2 = Inr M" and "int_py p3 = Inr S" and "int_py p4 = Inr F"
  shows "timecode_to_frames tc = Inr ((H * 3600 + M * 60 + S) * 30 + F)"
  using assms by (auto simp: timecode_to_frames_Inr_iff)

theorem parse_formula_witness:
  "timecode_to_frames (lit ''00:00:01:00'') = Inr 30 \<and>
   timecode_to_frames (lit ''01:00:00:00'') = Inr 108000"
proof -
  have s1: "split 0x3a (lit ''00:00:01:00'') = [lit ''00'', lit ''00'', lit ''01'', lit ''00'']"
    and s2: "split 0x3a (lit ''01:00:00:00'') = [lit ''01'', lit ''00'', lit ''00'', lit ''00'']"
    by (simp_all add: lit_def)
  have i0: "int_py (lit ''00'') = Inr 0" and i1: "int_py (lit ''01'') = Inr 1"
    by (simp_all add: tc_eval)
  show ?thesis
    using parse_formula [OF s1 i0 i0 i1 i0] parse_formula [OF s2 i1 i0 i0 i0]
    by simp
qed

subsection \<open>C8: when the parser fails\<close>

text \<open>
  Claim C8. \<open>timecode_to_frames\<close> fails (with \<open>ValueError\<close>, the exception the
  specification calls \<open>MalformedTimecode\<close>) if and only if the input does not split on
  \<open>:\<close> into exactly four integer-parsable parts; and it returns a frame count only for
  an input that does, so a malformed input is never turned into zero or any other number.
\<close>

theorem parse_fails_iff:
  "(timecode_to_frames tc = Inl ValueError \<longleftrightarrow> \<not> four_int_parts tc) \<and>
   ((\<exists>n. timecode_to_frames tc = Inr n) \<longleftrightarrow> four_int_parts tc)"
proof -
  have a: "four_int_parts tc \<longleftrightarrow> (\<exists>n. timecode_to_frames tc = Inr n)"
    unfolding four_int_parts_iff timecode_to_frames_Inr_iff by blast
  show ?thesis
  proof (cases "timecode_to_frames tc")
    case (Inl e)
    then have "e = ValueError" by (rule timecode_to_frames_error)
    with Inl a show ?thesis by simp
  next
    case (Inr n)
    with a show ?thesis by auto
  qed
qed

theorem parse_fails_iff_witness:
  "timecode_to_frames (lit ''00:00:01'') = Inl ValueError \<and>
   \<not> four_int_parts (lit ''00:00:01'') \<and>
   timecode_to_frames (lit ''00:0x:01:00'') = Inl ValueError \<and>
   \<not> four_int_parts (lit ''00:0x:01:00'') \<and>
   four_int_parts (lit ''00:00:01:00'')"
proof -
  have "\<not> four_int_parts (lit ''00:00:01'')" "\<not> four_int_parts (lit ''00:0x:01:00'')"
    "timecode_to_frames (lit ''00:00:01:00'') = Inr 30"
    by (simp_all add: four_int_parts_def int_parsable_def tc_eval)
  then show ?thesis
    using parse_fails_iff [of "lit ''00:00:01''"] parse_fails_iff [of "lit ''00:0x:01:00''"]
      parse_fails_iff [of "lit ''00:00:01:00''"]
    by blast
qed

subsection \<open>C6: the corrected document\<close>

text \<open>
  Claim C6. The generator's output is exactly the XML declaration line, a \<open><tt>\<close> line,
  a \<open><body>\<close> line, then for each reference cue in order one line
  \<open>    <p begin="BEGIN" end="END">TRANSLATED TEXT HERE</p>\<close> carrying that cue's begin and
  end strings as they are, followed by \<open></body>\<close> and \<open></tt>\<close>. The text of a cue is
  not used: the output is the same when every text is replaced by the empty string.
\<close>

theorem generator_output:
  \<open>generate_corrected_itt cs =
     lit ''<?xml version='1.0' encoding='utf-8'?>'' @ [0x0a] @ lit ''<tt>'' @ [0x0a] @
     lit ''<body>'' @ [0x0a] @
     concat (map (\<lambda>(b, e, t).
        lit ''    <p begin="'' @ b @ lit ''" end="'' @ e @ lit ''">TRANSLATED TEXT HERE</p>'' @ [0x0a]) cs) @
     lit ''</body>'' @ [0x0a] @ lit ''</tt>'' \<and>
   generate_corrected_itt cs = generate_corrected_itt (map (\<lambda>(b, e, t). (b, e, [])) cs)\<close>
proof
  have h: \<open>lit ''<?xml version='1.0' encoding='utf-8'?>\<newline><tt>\<newline><body>\<newline>'' =
      lit ''<?xml version='1.0' encoding='utf-8'?>'' @ [0x0a] @ lit ''<tt>'' @ [0x0a] @
      lit ''<body>'' @ [0x0a]\<close>
    by (simp add: lit_def)
  have f: \<open>lit ''</body>\<newline></tt>'' = lit ''</body>'' @ [0x0a] @ lit ''</tt>''\<close>
    by (simp add: lit_def)
  have l: \<open>(\<lambda>(b, e, t). p_line b e) = (\<lambda>(b, e, t).
        lit ''    <p begin="'' @ b @ lit ''" end="'' @ e @ lit ''">TRANSLATED TEXT HERE</p>'' @ [0x0a])\<close>
    by (simp add: p_line_def lit_def fun_eq_iff)
  show \<open>generate_corrected_itt cs =
     lit ''<?xml version='1.0' encoding='utf-8'?>'' @ [0x0a] @ lit ''<tt>'' @ [0x0a] @
     lit ''<body>'' @ [0x0a] @
     concat (map (\<lambda>(b, e, t).
        lit ''    <p begin="'' @ b @ lit ''" end="'' @ e @ lit ''">TRANSLATED TEXT HERE</p>'' @ [0x0a]) cs) @
     lit ''</body>'' @ [0x0a] @ lit ''</tt>''\<close>
    unfolding generate_corrected_itt_def generate_loop_concat h f l by simp
next
  show "generate_corrected_itt cs = generate_corrected_itt (map (\<lambda>(b, e, t). (b, e, [])) cs)"
    unfolding generate_corrected_itt_def generate_loop_concat map_map p_line_erase_text ..
qed

theorem generator_output_witness:
  \<open>generate_corrected_itt [(lit ''00:00:00:00'', lit ''00:00:02:00'', lit ''Hello'')] =
     lit ''<?xml version='1.0' encoding='utf-8'?>'' @ [0x0a] @ lit ''<tt>'' @ [0x0a] @
     lit ''<body>'' @ [0x0a] @
     lit ''    <p begin="00:00:00:00" end="00:00:02:00">TRANSLATED TEXT HERE</p>'' @ [0x0a] @
     lit ''</body>'' @ [0x0a] @ lit ''</tt>''\<close>
  using generator_output [of "[(lit ''00:00:00:00'', lit ''00:00:02:00'', lit ''Hello'')]"]
  by (simp add: lit_def)

subsection \<open>C1: the timecode issues\<close>

text \<open>
  Claim C1. For reference cues \<open>R\<close> and translated cues \<open>T\<close> whose index-aligned cues
  have parsable timecodes, the comparator returns, as its timecode issues, the pairs
  \<open>(R[i].text, T[i].text)\<close> for exactly those indices \<open>i < min (len R) (len T)\<close>, in
  increasing order, at which the start frame counts or the end frame counts differ by
  more than 3. A difference of exactly 3 is not listed, and the scan never stops early.
\<close>

theorem comparator_timecode_issues:
  assumes "aligned_ok R T"
  shows "\<exists>line_count_match extra_lines missing_lines.
           compare_files R T =
             Inr (line_count_match, timecode_issues_spec R T, extra_lines, missing_lines)"
  using compare_loop_spec [OF assms] by (simp add: compare_files_def Let_def)

theorem comparator_timecode_issues_witness:
  "aligned_ok ref3 tra5 \<and>
   (\<exists>line_count_match extra_lines missing_lines.
      compare_files ref3 tra5 =
        Inr (line_count_match,
             [(lit ''World'', lit ''Monde''), (lit ''Bye'', lit ''Salut'')],
             extra_lines, missing_lines))"
proof -
  have ok: "aligned_ok ref3 tra5"
    by (rule aligned_ok_examples)
  from comparator_timecode_issues [OF ok] ok show ?thesis
    unfolding issues_examples by simp
qed

subsection \<open>C2: line counts, extra and missing lines\<close>

text \<open>
  Claim C2. With \<open>m = len R\<close> and \<open>n = len T\<close>, every result of the comparator has
  \<open>line_count_match = (m = n)\<close>, \<open>extra_lines = T[m:]\<close> when \<open>n > m\<close> and empty otherwise,
  and \<open>missing_lines = R[n:]\<close> when \<open>m > n\<close> and empty otherwise; with \<open>m = 3\<close> and
  \<open>n = 5\<close> that is two extra lines, no missing line and no match. The comparator does
  return a result when the index-aligned cues have parsable timecodes.
\<close>

theorem comparator_line_counts:
  "(\<forall>line_count_match timecode_issues extra_lines missing_lines.
      compare_files R T = Inr (line_count_match, timecode_issues, extra_lines, missing_lines) \<longrightarrow>
        line_count_match = (length R = length T) \<and>
        extra_lines = (if length T > length R then drop (length R) T else []) \<and>
        missing_lines = (if length R > length T then drop (length T) R else []) \<and>
        (length R = 3 \<and> length T = 5 \<longrightarrow>
           length extra_lines = 2 \<and> missing_lines = [] \<and> \<not> line_count_match)) \<and>
   (aligned_ok R T \<longrightarrow> (\<exists>res. compare_files R T = Inr res))"
  using compare_loop_spec [of R T]
  by (auto simp: compare_files_def Let_def split: sum.splits)

theorem comparator_line_counts_witness:
  "aligned_ok ref3 tra5 \<and>
   (\<exists>timecode_issues.
      compare_files ref3 tra5 = Inr (False, timecode_issues, drop 3 tra5, []))"
proof -
  have ok: "aligned_ok ref3 tra5"
    by (rule aligned_ok_examples)
  have len: "length ref3 = 3" "length tra5 = 5"
    by (simp_all add: ref3_def tra5_def)
  from comparator_line_counts [of ref3 tra5] ok
  obtain res where "compare_files ref3 tra5 = Inr res"
    by blast
  then obtain l i e m where r: "compare_files ref3 tra5 = Inr (l, i, e, m)"
    by (cases res) auto
  with comparator_line_counts [of ref3 tra5] len
  have "l = False \<and> e = drop 3 tra5 \<and> m = []"
    by auto
  with r ok show ?thesis
    by auto
qed

subsection \<open>C9: at most one of extra and missing lines\<close>

text \<open>
  Claim C9. In every result of the comparator, \<open>line_count_match\<close> is true if and only
  if \<open>extra_lines\<close> and \<open>missing_lines\<close> are both empty, and at most one of the two is
  non-empty. The comparator does return a result when the index-aligned cues have
  parsable timecodes.
\<close>

theorem comparator_count_invariant:
  "(\<forall>line_count_match timecode_issues extra_lines missing_lines.
      compare_files R T = Inr (line_count_match, timecode_issues, extra_lines, missing_lines) \<longrightarrow>
        (line_count_match \<longleftrightarrow> extra_lines = [] \<and> missing_lines = []) \<and>
        (extra_lines = [] \<or> missing_lines = [])) \<and>
   (aligned_ok R T \<longrightarrow> (\<exists>res. compare_files R T = Inr res))"
  using compare_loop_spec [of R T]
  by (auto simp: compare_files_def Let_def split: sum.splits)

theorem comparator_count_invariant_witness:
  "aligned_ok tra5 ref3 \<and>
   (\<exists>timecode_issues extra_lines missing_lines.
      compare_files tra5 ref3 = Inr (False, timecode_issues, extra_lines, missing_lines) \<and>
      extra_lines = [] \<and> missing_lines \<noteq> [])"
proof -
  have ok: "aligned_ok tra5 ref3"
    by (rule aligned_ok_examples)
  have ev: "compare_files tra5 ref3 =
      Inr (False, [(lit ''Monde'', lit ''World''), (lit ''Salut'', lit ''Bye'')], [], drop 3 tra5)"
    by (simp add: compare_files_def compare_loop_spec [OF ok] issues_examples)
      (simp add: ref3_def tra5_def)
  have ne: "drop 3 tra5 \<noteq> []"
    by (simp add: tra5_def)
  from comparator_count_invariant [of tra5 ref3] ev ne ok show ?thesis
    by blast
qed

subsection \<open>C3: overlapping cues\<close>

text \<open>
  Claim C3. For a cue sequence with parsable timecodes, the overlap checker returns true
  if and only if some cue's start frame count is strictly less than the end frame count
  of the cue just before it. A cue that starts exactly where the previous one ends is not
  an overlap, and a sequence of fewer than two cues yields false.
\<close>

theorem overlap_checker:
  assumes "list_all cue_ok cs"
  shows "check_timecode_overlap cs = Inr (overlap_spec cs) \<and>
         (length cs < 2 \<longrightarrow> check_timecode_overlap cs = Inr False)"
proof -
  have a: "check_timecode_overlap cs = Inr (overlap_spec cs)"
    using overlap_loop_spec [OF assms, of None] by (simp add: check_timecode_overlap_def)
  have "length cs < 2 \<Longrightarrow> \<not> overlap_spec cs"
    by (auto simp: overlap_spec_def)
  with a show ?thesis by simp
qed

theorem overlap_checker_witness:
  "list_all cue_ok overlapping2 \<and> check_timecode_overlap overlapping2 = Inr True \<and>
   list_all cue_ok abutting2 \<and> check_timecode_overlap abutting2 = Inr False"
proof -
  have ok: "list_all cue_ok overlapping2" "list_all cue_ok abutting2"
    by (simp_all add: overlapping2_def abutting2_def cue_ok_def parses_def example_frames)
  have f1: "start_frames (lit ''00:00:01:00'', lit ''00:00:03:00'', lit ''B'') = 30"
    and f2: "start_frames (lit ''00:00:02:00'', lit ''00:00:04:00'', lit ''B'') = 60"
    and f3: "end_frames (lit ''00:00:00:00'', lit ''00:00:02:00'', lit ''A'') = 60"
    by (simp_all add: start_frames_def end_frames_def frames_of_def example_frames)
  have o1: "overlap_spec overlapping2"
    unfolding overlapping2_def by (simp add: overlap_spec_Cons overlap_spec_Nil f1 f3)
  have o2: "\<not> overlap_spec abutting2"
    unfolding abutting2_def by (simp add: overlap_spec_Cons overlap_spec_Nil f2 f3)
  from overlap_checker [OF ok(1)] overlap_checker [OF ok(2)] o1 o2 ok show ?thesis
    by simp
qed

subsection \<open>C10: extracted timecodes always parse\<close>

text \<open>
  Claim C10. For every input that decodes as UTF-8, the extractor returns cues whose
  begin and end strings each consist of exactly four groups of two decimal digits
  separated by colons; \<open>timecode_to_frames\<close> succeeds on each with a non-negative frame
  count; hence the overlap checker returns on the extracted cues, and the comparator
  returns on any two extracted cue sequences, in either order.
\<close>

theorem extracted_timecodes_parse:
  assumes "decode_utf8 file_content = Inr content"
  shows "\<exists>cues lang_code.
           extract_itt_data file_content = Inr (cues, lang_code, content) \<and>
           list_all (\<lambda>(b, e, t).
               timecode_shape b \<and> timecode_shape e \<and>
               (\<exists>n. timecode_to_frames b = Inr n \<and> 0 \<le> n) \<and>
               (\<exists>n. timecode_to_frames e = Inr n \<and> 0 \<le> n)) cues \<and>
           (\<exists>flag. check_timecode_overlap cues = Inr flag) \<and>
           (\<forall>file_content' cues' lang_code' content'.
               extract_itt_data file_content' = Inr (cues', lang_code', content') \<longrightarrow>
               (\<exists>res. compare_files cues cues' = Inr res) \<and>
               (\<exists>res. compare_files cues' cues = Inr res))"
proof -
  from assms obtain lang_code
    where ex: "extract_itt_data file_content = Inr (findall_p content, lang_code, content)"
    by (blast dest: extract_itt_data_decoded)
  have shapes: "list_all (\<lambda>(b, e, t).
               timecode_shape b \<and> timecode_shape e \<and>
               (\<exists>n. timecode_to_frames b = Inr n \<and> 0 \<le> n) \<and>
               (\<exists>n. timecode_to_frames e = Inr n \<and> 0 \<le> n)) (findall_p content)"
    using findall_p_shapes [of content]
    by (auto simp: list_all_iff dest: timecode_shape_parses)
  have ov: "\<exists>flag. check_timecode_overlap (findall_p content) = Inr flag"
    by (rule check_timecode_overlap_returns) (rule findall_p_cue_ok)
  have cmp: "(\<exists>res. compare_files (findall_p content) cues' = Inr res) \<and>
      (\<exists>res. compare_files cues' (findall_p content) = Inr res)"
    if "extract_itt_data file_content' = Inr (cues', lang_code', content')"
    for file_content' cues' lang_code' content'
  proof -
    from that have c: "cues' = findall_p content'"
      by (blast dest: extract_itt_data_Inr)
    have "aligned_ok (findall_p content) cues'" "aligned_ok cues' (findall_p content)"
      unfolding c by (simp_all add: aligned_ok_of_cue_ok findall_p_cue_ok)
    then show ?thesis
      by (blast dest: compare_files_returns)
  qed
  from ex shapes ov cmp show ?thesis by blast
qed

theorem extracted_timecodes_parse_witness:
  "decode_utf8 (ascii_bytes doc_two_cues) = Inr (lit doc_two_cues) \<and>
   extract_itt_data (ascii_bytes doc_two_cues) = Inr (cues_two, lit ''fr-FR'', lit doc_two_cues) \<and>
   list_all (\<lambda>(b, e, t).
       timecode_shape b \<and> timecode_shape e \<and>
       (\<exists>n. timecode_to_frames b = Inr n \<and> 0 \<le> n) \<and>
       (\<exists>n. timecode_to_frames e = Inr n \<and> 0 \<le> n)) cues_two \<and>
   (\<exists>flag. check_timecode_overlap cues_two = Inr flag) \<and>
   (\<exists>res. compare_files cues_two cues_two = Inr res)"
proof -
  from extracted_timecodes_parse [OF decode_doc_two_cues]
  obtain cues lang_code
    where ex: "extract_itt_data (ascii_bytes doc_two_cues) = Inr (cues, lang_code, lit doc_two_cues)"
    and sh: "list_all (\<lambda>(b, e, t).
       timecode_shape b \<and> timecode_shape e \<and>
       (\<exists>n. timecode_to_frames b = Inr n \<and> 0 \<le> n) \<and>
       (\<exists>n. timecode_to_frames e = Inr n \<and> 0 \<le> n)) cues"
    and ov: "\<exists>flag. check_timecode_overlap cues = Inr flag"
    and cmp: "\<forall>file_content' cues' lang_code' content'.
               extract_itt_data file_content' = Inr (cues', lang_code', content') \<longrightarrow>
               (\<exists>res. compare_files cues cues' = Inr res) \<and>
               (\<exists>res. compare_files cues' cues = Inr res)"
    by blast
  from ex have c: "cues = cues_two"
    unfolding extract_doc_two_cues by simp
  from cmp extract_doc_two_cues have "\<exists>res. compare_files cues cues_two = Inr res"
    by blast
  with sh ov decode_doc_two_cues extract_doc_two_cues show ?thesis
    unfolding c by blast
qed

subsection \<open>C5: the cues the extractor produces\<close>

text \<open>
  Claim C5, as the specification states it: the extractor produces exactly the cues of
  all non-overlapping fragments \<open><p begin="TC" end="TC">INNER</p>\<close>, with \<open>INNER\<close> the
  shortest span up to the next \<open></p>\<close>, in document order. That fails on a cue whose text
  holds a line feed: \<open>.\<close> does not match a line feed, so the pattern does not match the
  fragment, and the document below, which is one such fragment, yields no cue.
\<close>

theorem extractor_cues_counterexample:
  "decode_utf8 (ascii_bytes doc_two_lines) = Inr (lit doc_two_lines) \<and>
   scan p_shape_claimed (lit doc_two_lines) [cue_two_lines] \<and>
   extract_itt_data (ascii_bytes doc_two_lines) = Inr ([], lit ''Unknown'', lit doc_two_lines)"
proof -
  have "scan p_shape_claimed [] []"
    by (rule scan_done) (simp add: p_shape_claimed_Nil)
  with p_shape_claimed_two_lines
  have "scan p_shape_claimed ([] @ lit doc_two_lines) [cue_two_lines]"
    by (intro scan_next) simp_all
  with decode_doc_two_lines extract_doc_two_lines show ?thesis
    by simp
qed

text \<open>
  Claim C5, amended: for every document that decodes as UTF-8, the extractor produces
  exactly the cues of all non-overlapping fragments \<open><p begin="TC" end="TC">INNER</p>\<close>
  in which \<open>INNER\<close> is the shortest span up to the next \<open></p>\<close> and holds no line feed,
  in document order: its cue list is a left-to-right scan of the document for such
  fragments, and the only one.
\<close>

theorem extractor_cues:
  assumes "decode_utf8 file_content = Inr content"
  shows "\<exists>cues lang_code.
           extract_itt_data file_content = Inr (cues, lang_code, content) \<and>
           scan p_shape content cues \<and>
           (\<forall>cues'. scan p_shape content cues' \<longrightarrow> cues' = cues)"
proof -
  from assms obtain lang_code
    where "extract_itt_data file_content = Inr (findall_p content, lang_code, content)"
    by (blast dest: extract_itt_data_decoded)
  moreover have "scan p_shape content (findall_p content)"
    by (rule findall_p_scan)
  moreover have "\<forall>cues'. scan p_shape content cues' \<longrightarrow> cues' = findall_p content"
    by (auto dest: scan_findall_p)
  ultimately show ?thesis by blast
qed

theorem extractor_cues_witness:
  "decode_utf8 (ascii_bytes doc_two_cues) = Inr (lit doc_two_cues) \<and>
   extract_itt_data (ascii_bytes doc_two_cues) = Inr (cues_two, lit ''fr-FR'', lit doc_two_cues) \<and>
   scan p_shape (lit doc_two_cues) cues_two"
  using extractor_cues [OF decode_doc_two_cues] decode_doc_two_cues
  unfolding extract_doc_two_cues
  by auto

subsection \<open>C7: lexical order and frame counts\<close>

text \<open>
  Claim C7, as the specification states it: for well-formed \<open>HH:MM:SS:FF\<close> strings \<open>a\<close>
  and \<open>b\<close>, if \<open>a\<close> precedes \<open>b\<close> in lexical order then the frame count of \<open>a\<close> is at
  most that of \<open>b\<close>. The parser accepts any two digits as frames, so this fails:
  \<open>"00:00:00:99"\<close> precedes \<open>"00:00:01:00"\<close> and has the frame count 99, against 30.
\<close>

theorem parse_monotonic_counterexample:
  "ascii_timecode (lit ''00:00:00:99'') \<and> ascii_timecode (lit ''00:00:01:00'') \<and>
   str_less (lit ''00:00:00:99'') (lit ''00:00:01:00'') \<and>
   timecode_to_frames (lit ''00:00:00:99'') = Inr 99 \<and>
   timecode_to_frames (lit ''00:00:01:00'') = Inr 30 \<and>
   \<not> (99 :: int) \<le> 30"
  by (simp add: ascii_timecode_examples str_less_examples more_example_frames example_frames)

text \<open>
  Claim C7, amended: for two strings \<open>a\<close> and \<open>b\<close> of the form \<open>HH:MM:SS:FF\<close> in ASCII
  digits, where the minutes and seconds of \<open>a\<close> are below 60 and its frames below 30, if
  \<open>a\<close> precedes \<open>b\<close> in lexical order then the parser succeeds on both and the frame
  count of \<open>a\<close> is at most that of \<open>b\<close>.
\<close>

theorem parse_monotonic:
  assumes "ascii_timecode a" and "ascii_timecode b" and "fields_in_range a" and "str_less a b"
  shows "\<exists>x y. timecode_to_frames a = Inr x \<and> timecode_to_frames b = Inr y \<and> x \<le> y"
proof -
  from assms(1) obtain h1 h2 m1 m2 s1 s2 f1 f2 where
    a: "a = [48 + h1, 48 + h2, 58, 48 + m1, 48 + m2, 58, 48 + s1, 48 + s2, 58, 48 + f1, 48 + f2]"
    and ra: "h1 < 10" "h2 < 10" "m1 < 10" "m2 < 10" "s1 < 10" "s2 < 10" "f1 < 10" "f2 < 10"
    and sa: "split 58 a = [[48 + h1, 48 + h2], [48 + m1, 48 + m2], [48 + s1, 48 + s2], [48 + f1, 48 + f2]]"
    by (rule ascii_timecode_D)
  from assms(2) obtain k1 k2 n1 n2 t1 t2 g1 g2 where
    b: "b = [48 + k1, 48 + k2, 58, 48 + n1, 48 + n2, 58, 48 + t1, 48 + t2, 58, 48 + g1, 48 + g2]"
    and rb: "k1 < 10" "k2 < 10" "n1 < 10" "n2 < 10" "t1 < 10" "t2 < 10" "g1 < 10" "g2 < 10"
    and sb: "split 58 b = [[48 + k1, 48 + k2], [48 + n1, 48 + n2], [48 + t1, 48 + t2], [48 + g1, 48 + g2]]"
    by (rule ascii_timecode_D)
  note fa = ascii_timecode_frames [OF sa ra]
  note fb = ascii_timecode_frames [OF sb rb]
  from assms(3) fa(2) have range: "10 * m1 + m2 < 60" "10 * s1 + s2 < 60" "10 * f1 + f2 < 30"
    by simp_all
  from assms(4) have lex:
    "10 * h1 + h2 < 10 * k1 + k2 \<or> (10 * h1 + h2 = 10 * k1 + k2 \<and>
      (10 * m1 + m2 < 10 * n1 + n2 \<or> (10 * m1 + m2 = 10 * n1 + n2 \<and>
        (10 * s1 + s2 < 10 * t1 + t2 \<or> (10 * s1 + s2 = 10 * t1 + t2 \<and>
          10 * f1 + f2 \<le> 10 * g1 + g2)))))"
    unfolding a b
    using ra rb
    by (simp add: two_digits_less two_digits_eq) linarith
  have "(int (10 * h1 + h2) * 3600 + int (10 * m1 + m2) * 60 + int (10 * s1 + s2)) * 30 +
         int (10 * f1 + f2) \<le>
        (int (10 * k1 + k2) * 3600 + int (10 * n1 + n2) * 60 + int (10 * t1 + t2)) * 30 +
         int (10 * g1 + g2)"
    using range lex by (rule lex_frames_le)
  with fa(1) fb(1) show ?thesis by simp
qed

theorem parse_monotonic_witness:
  "ascii_timecode (lit ''00:59:59:29'') \<and> ascii_timecode (lit ''01:00:00:00'') \<and>
   fields_in_range (lit ''00:59:59:29'') \<and>
   str_less (lit ''00:59:59:29'') (lit ''01:00:00:00'') \<and>
   (\<exists>x y. timecode_to_frames (lit ''00:59:59:29'') = Inr x \<and>
          timecode_to_frames (lit ''01:00:00:00'') = Inr y \<and> x \<le> y \<and>
          x = 107999 \<and> y = 108000)"
  using parse_monotonic [OF ascii_timecode_examples(3,4) fields_in_range_example
      str_less_examples(2)]
    ascii_timecode_examples(3,4) fields_in_range_example str_less_examples(2)
  by (simp add: more_example_frames)

end
